theory Spec2Isabelle
  imports Complex_Main
begin

section \<open>Cell values and their JavaScript conversions\<close>

text \<open>
  \<^verbatim>\<open>getValues()\<close> returns a grid whose entries are strings, numbers, booleans or
  dates; an empty cell is the empty string. A string is a list of code units below
  U+0100. A number is a rational (every finite double is one; a cell holds no other
  number); dates are milliseconds since the epoch.
\<close>

datatype cell = Text string | Number rat | Boolean bool | DateTime int

text \<open>
  Library functions whose results the script does not determine: the rendering of a
  date by \<^verbatim>\<open>Date.prototype.toString\<close> and \<^verbatim>\<open>toLocaleDateString\<close>, the parsing done
  by \<^verbatim>\<open>new Date(string)\<close> (\<open>None\<close> is an invalid date), and the shortest decimal
  form of a positive number \<open>x\<close> that \<^verbatim>\<open>Number.prototype.toString\<close> prints: the integer
  \<open>s\<close> of its digits and the position \<open>n\<close> of the decimal point, with
  \<open>x = s \<times> 10 ^ (n - k)\<close> for the number \<open>k\<close> of digits of \<open>s\<close>.
\<close>

record host =
  dateToString :: "int \<Rightarrow> string"
  toLocaleDateString :: "int \<Rightarrow> string"
  dateParse :: "string \<Rightarrow> int option"
  decimalDigits :: "rat \<Rightarrow> nat"
  decimalPoint :: "rat \<Rightarrow> int"

text \<open>
  The white space and line terminators removed by \<^verbatim>\<open>String.prototype.trim\<close> among the
  code units below U+0100: tab, line feed, vertical tab, form feed, carriage return,
  space and no-break space.
\<close>

definition isSpace :: "char \<Rightarrow> bool" where
  "isSpace c =
     (c \<in> set [CHR 0x09, CHR 0x0A, CHR 0x0B, CHR 0x0C, CHR 0x0D, CHR 0x20, CHR 0xA0])"

definition trim :: "string \<Rightarrow> string" where
  "trim s = rev (dropWhile isSpace (rev (dropWhile isSpace s)))"

definition digitChar :: "nat \<Rightarrow> char" where
  "digitChar d = ''0123456789'' ! d"

fun digits :: "nat \<Rightarrow> string" where
  "digits n =
     (if n < 10 then [digitChar n]
      else digits (n div 10) @ [digitChar (n mod 10)])"

declare digits.simps [simp del]

text \<open>
  The text that \<^verbatim>\<open>Number.prototype.toString\<close> makes of the digits \<open>ds\<close> and the position
  \<open>n\<close> of the decimal point: the digits followed by zeros, the digits with a point
  among them, the digits after \<^verbatim>\<open>0.\<close> and zeros, or, for \<open>n\<close> above 21 or not above -6,
  the exponent form.
\<close>

definition decimalForm :: "string \<Rightarrow> int \<Rightarrow> string" where
  "decimalForm ds n =
     (if int (length ds) \<le> n \<and> n \<le> 21 then ds @ replicate (nat (n - int (length ds))) CHR ''0''
      else if 0 < n \<and> n \<le> 21 then take (nat n) ds @ ''.'' @ drop (nat n) ds
      else if - 6 < n \<and> n \<le> 0 then ''0.'' @ replicate (nat (- n)) CHR ''0'' @ ds
      else (if length ds = 1 then ds else take 1 ds @ ''.'' @ drop 1 ds)
           @ ''e'' @ (if 0 \<le> n - 1 then ''+'' else ''-'') @ digits (nat \<bar>n - 1\<bar>))"

text \<open>
  \<^verbatim>\<open>Number.prototype.toString\<close> of an integer: a minus sign for a negative number, then
  the decimal digits below \<^verbatim>\<open>1e21\<close> and the exponent form from there on.
\<close>

definition numberToString :: "host \<Rightarrow> int \<Rightarrow> string" where
  "numberToString h n =
     (if n < 0 then ''-'' else []) @
     (if \<bar>n\<bar> < 10 ^ 21 then digits (nat \<bar>n\<bar>)
      else decimalForm (digits (decimalDigits h (of_int \<bar>n\<bar>)))
             (decimalPoint h (of_int \<bar>n\<bar>)))"

text \<open>\<^verbatim>\<open>Number.prototype.toString\<close> of a number that is not an integer.\<close>

definition fractionToString :: "host \<Rightarrow> rat \<Rightarrow> string" where
  "fractionToString h x =
     (if x < 0 then ''-'' else []) @
     decimalForm (digits (decimalDigits h \<bar>x\<bar>)) (decimalPoint h \<bar>x\<bar>)"

text \<open>\<^verbatim>\<open>v.toString()\<close>, also the conversion made by a template literal.\<close>

fun toString :: "host \<Rightarrow> cell \<Rightarrow> string" where
  "toString h (Text s) = s"
| "toString h (Number x) =
     (if of_int \<lfloor>x\<rfloor> = x then numberToString h \<lfloor>x\<rfloor> else fractionToString h x)"
| "toString h (Boolean b) = (if b then ''true'' else ''false'')"
| "toString h (DateTime t) = dateToString h t"

text \<open>\<^verbatim>\<open>!v\<close>: the empty string, zero and \<^verbatim>\<open>false\<close> are falsy; a date object never is.\<close>

fun falsy :: "cell \<Rightarrow> bool" where
  "falsy (Text s) = (s = [])"
| "falsy (Number x) = (x = 0)"
| "falsy (Boolean b) = (\<not> b)"
| "falsy (DateTime t) = False"

text \<open>\<^verbatim>\<open>!v || v.toString().trim() === ''\<close>, the test applied to the name and to emailSent.\<close>

definition isBlank :: "host \<Rightarrow> cell \<Rightarrow> bool" where
  "isBlank h v = (falsy v \<or> trim (toString h v) = [])"

section \<open>The validation rule of the name column\<close>

datatype 'a call = Throws | Returns 'a

datatype criteriaType = VALUE_IN_LIST | VALUE_IN_RANGE | OTHER_CRITERIA

text \<open>
  An element of \<^verbatim>\<open>getCriteriaValues()\<close>: a falsy entry (\<^verbatim>\<open>null\<close>, \<^verbatim>\<open>undefined\<close>), an
  array of strings, or another object (a \<^verbatim>\<open>Range\<close>) given by the text of its
  \<^verbatim>\<open>toString()\<close>.
\<close>

datatype criterion = Absent | StringList "string list" | RangeRef string

text \<open>
  A \<^verbatim>\<open>DataValidation\<close> object: either getter may throw, and \<^verbatim>\<open>getCriteriaValues()\<close>
  may return \<^verbatim>\<open>null\<close> (\<open>None\<close>).
\<close>

record validation =
  getCriteriaType :: "criteriaType call"
  getCriteriaValues :: "criterion list option call"

fun joinComma :: "string list \<Rightarrow> string" where
  "joinComma [] = []"
| "joinComma [x] = x"
| "joinComma (x # y # ys) = x @ '','' @ joinComma (y # ys)"

text \<open>\<^verbatim>\<open>criteriaValues[0].toString()\<close> of a truthy entry (an array joins its elements).\<close>

fun criterionToString :: "criterion \<Rightarrow> string" where
  "criterionToString (StringList xs) = joinComma xs"
| "criterionToString (RangeRef s) = s"
| "criterionToString Absent = []"

text \<open>
  \<^verbatim>\<open>isValidName(validation, nameValue, spreadsheet)\<close>. The third argument is what the
  function uses of the spreadsheet: \<^verbatim>\<open>getRange(a1).getValues().flat()\<close>, \<open>None\<close> when either
  call throws. Every \<^verbatim>\<open>catch\<close> of the source returns \<^verbatim>\<open>true\<close>. In the list branch an
  entry that is not an array has no \<^verbatim>\<open>some\<close> method, which throws.
\<close>

definition isValidName ::
  "host \<Rightarrow> validation option \<Rightarrow> cell \<Rightarrow> (string \<Rightarrow> cell list option) \<Rightarrow> bool" where
  "isValidName h validation nameValue getRange =
     (if falsy nameValue \<or> trim (toString h nameValue) = [] then False
      else case validation of
        None \<Rightarrow> True
      | Some v \<Rightarrow>
         (case getCriteriaType v of
            Throws \<Rightarrow> True
          | Returns criteriaType \<Rightarrow>
             (case getCriteriaValues v of
                Throws \<Rightarrow> True
              | Returns criteriaValues \<Rightarrow>
                 if criteriaType = VALUE_IN_LIST then
                   (case criteriaValues of
                      None \<Rightarrow> True
                    | Some [] \<Rightarrow> True
                    | Some (Absent # _) \<Rightarrow> True
                    | Some (StringList allowedValues # _) \<Rightarrow>
                        list_ex (\<lambda>val. trim val = trim (toString h nameValue)) allowedValues
                    | Some (RangeRef _ # _) \<Rightarrow> True)
                 else if criteriaType = VALUE_IN_RANGE then
                   (case criteriaValues of
                      None \<Rightarrow> True
                    | Some [] \<Rightarrow> True
                    | Some (Absent # _) \<Rightarrow> True
                    | Some (c # _) \<Rightarrow>
                       (case getRange (criterionToString c) of
                          None \<Rightarrow> True
                        | Some rangeValues \<Rightarrow>
                            list_ex (\<lambda>val. trim (toString h val) = trim (toString h nameValue))
                              rangeValues))
                 else True)))"


section \<open>The sheet, the spreadsheet and the outside world\<close>

datatype columnKey = Name | Date | Violation | HowLate | Notes | EmailSent | CoachNotified

fun columns :: "columnKey \<Rightarrow> string" where
  "columns Name = ''Name''"
| "columns Date = ''Date''"
| "columns Violation = ''Violation''"
| "columns HowLate = ''How Late?''"
| "columns Notes = ''Notes''"
| "columns EmailSent = ''Email sent''"
| "columns CoachNotified = ''Coach notified''"

text \<open>\<^verbatim>\<open>Object.keys(columns)\<close>, in declaration order.\<close>

definition keys :: "columnKey list" where
  "keys = [Name, Date, Violation, HowLate, Notes, EmailSent, CoachNotified]"

text \<open>
  A sheet: the grid returned by \<^verbatim>\<open>getDataRange().getValues()\<close> (row 0 is the header) and
  the data validation of a cell, \<^verbatim>\<open>getRange(row, column).getDataValidation()\<close>, which may
  throw or return \<^verbatim>\<open>null\<close>.
\<close>

record sheet =
  getValues :: "cell list list"
  getDataValidation :: "nat \<Rightarrow> nat \<Rightarrow> validation option call"

text \<open>
  A spreadsheet: its sheets by name, the last-update time of its file in milliseconds
  (\<^verbatim>\<open>DriveApp.getFileById(id).getLastUpdated()\<close>, which may throw), and the flat values of
  a range given in A1 notation (\<open>None\<close> when the lookup throws).
\<close>

record spreadsheet =
  getSheetByName :: "string \<Rightarrow> sheet option"
  getLastUpdated :: "int call"
  getRangeValues :: "string \<Rightarrow> cell list option"

text \<open>
  What one run meets outside the script: the clock read by the recency check, the
  year read by \<^verbatim>\<open>processLateSheet\<close>, the time stamped on a row, and whether
  \<^verbatim>\<open>MailApp.sendEmail\<close> or \<^verbatim>\<open>setValue\<close> throws while a given row is processed. A run
  makes at most one call of each kind per row, so the row number identifies the call.
\<close>

record env =
  nowMs :: int
  fullYear :: int
  timestamp :: "nat \<Rightarrow> int"
  sendEmailThrows :: "nat \<Rightarrow> bool"
  setValueThrows :: "nat \<Rightarrow> bool"

record mail =
  mailTo :: string
  subject :: string
  body :: string

text \<open>
  The calls a run makes on its collaborators, each tagged with the row being processed
  and with whether it returned (\<open>True\<close>) or threw (\<open>False\<close>).
\<close>

datatype event = SendEmail nat mail bool | SetValue nat nat cell bool

section \<open>The recency guard\<close>

definition wasSheetModifiedRecently :: "env \<Rightarrow> spreadsheet \<Rightarrow> bool" where
  "wasSheetModifiedRecently e spreadsheet =
     (case getLastUpdated spreadsheet of
        Throws \<Rightarrow> False
      | Returns lastModified \<Rightarrow>
         (let now = nowMs e; tenMinutesAgo = now - 10 * 60 * 1000
          in if lastModified > tenMinutesAgo then True else False))"

section \<open>Reading the header\<close>

text \<open>
  The two nested \<^verbatim>\<open>forEach\<close> loops over the header cells and the keys: a later header
  cell with the same label overwrites the index. \<^verbatim>\<open>columns[key] === header\<close> holds only
  for a string cell.
\<close>

fun scanHeader :: "cell list \<Rightarrow> nat \<Rightarrow> (columnKey \<rightharpoonup> nat) \<Rightarrow> (columnKey \<rightharpoonup> nat)" where
  "scanHeader [] index columnIndices = columnIndices"
| "scanHeader (header # rest) index columnIndices =
     scanHeader rest (Suc index)
       (foldl (\<lambda>ci key. if Text (columns key) = header then ci(key \<mapsto> index) else ci)
          columnIndices keys)"

definition missingColumns :: "(columnKey \<rightharpoonup> nat) \<Rightarrow> string list" where
  "missingColumns columnIndices =
     map columns (filter (\<lambda>key. columnIndices key = None) keys)"

record columnData =
  columnIndices :: "columnKey \<rightharpoonup> nat"
  gridValues :: "cell list list"
  nameValidation :: "validation option"

definition readColumnData :: "sheet \<Rightarrow> columnData option" where
  "readColumnData sheet =
     (let vals = getValues sheet in
      if length vals < 2 then None
      else
        let headerRow = vals ! 0;
            ci = scanHeader headerRow 0 Map.empty
        in if length (missingColumns ci) > 0 then None
           else
             let nv = (case ci Name of
                         None \<Rightarrow> None
                       | Some nameColumnIndex \<Rightarrow>
                          (case getDataValidation sheet 2 (nameColumnIndex + 1) of
                             Throws \<Rightarrow> None
                           | Returns r \<Rightarrow> r))
             in Some \<lparr>columnIndices = ci, gridValues = vals, nameValidation = nv\<rparr>)"

section \<open>Selecting the unprocessed rows\<close>

text \<open>
  \<^verbatim>\<open>row[i]\<close>. The grid is rectangular and the index comes from the header row, so the
  read is in range; past the end JavaScript gives \<^verbatim>\<open>undefined\<close>, which this program only
  tests for truthiness, where it behaves as the empty string does.
\<close>

definition cellAt :: "cell list \<Rightarrow> nat \<Rightarrow> cell" where
  "cellAt row i = (if i < length row then row ! i else Text [])"

text \<open>\<^verbatim>\<open>row[columnIndices[key]]\<close>.\<close>

definition lookupCell :: "(columnKey \<rightharpoonup> nat) \<Rightarrow> cell list \<Rightarrow> columnKey \<Rightarrow> cell" where
  "lookupCell ci row key = (case ci key of None \<Rightarrow> Text [] | Some i \<Rightarrow> cellAt row i)"

record rowInfo =
  rowNumber :: nat
  data :: "columnKey \<Rightarrow> cell"

text \<open>The loop \<^verbatim>\<open>for (let i = 1; i < values.length; i++)\<close> with its accumulator.\<close>

function findUnprocessed ::
  "host \<Rightarrow> (columnKey \<rightharpoonup> nat) \<Rightarrow> cell list list \<Rightarrow> nat \<Rightarrow> rowInfo list \<Rightarrow> rowInfo list" where
  "findUnprocessed h ci vals i unprocessedRows =
     (if i < length vals then
        (if falsy (lookupCell ci (vals ! i) EmailSent)
            \<or> trim (toString h (lookupCell ci (vals ! i) EmailSent)) = []
         then findUnprocessed h ci vals (Suc i)
                (unprocessedRows @
                   [\<lparr>rowNumber = i + 1, data = (\<lambda>key. lookupCell ci (vals ! i) key)\<rparr>])
         else findUnprocessed h ci vals (Suc i) unprocessedRows)
      else unprocessedRows)"
  by pat_completeness auto
termination
  by (relation "measure (\<lambda>(h, ci, vals, i, acc). length vals - i)") auto

declare findUnprocessed.simps [simp del]

section \<open>The notification\<close>

text \<open>
  \<^verbatim>\<open>new Date(v)\<close> for a value that is not a date object: its time value, if valid. A
  number is cut to an integer, towards zero.
\<close>

fun newDate :: "host \<Rightarrow> cell \<Rightarrow> int option" where
  "newDate h (Text s) = dateParse h s"
| "newDate h (Number x) =
     (if \<bar>x\<bar> \<le> 8640000000000000 then Some (if 0 \<le> x then \<lfloor>x\<rfloor> else \<lceil>x\<rceil>) else None)"
| "newDate h (Boolean b) = Some (if b then 1 else 0)"
| "newDate h (DateTime t) = Some t"

definition formatDate :: "host \<Rightarrow> cell \<Rightarrow> string" where
  "formatDate h dateValue =
     (if falsy dateValue then []
      else case (case dateValue of DateTime t \<Rightarrow> Some t | _ \<Rightarrow> newDate h dateValue) of
             None \<Rightarrow> toString h dateValue
           | Some t \<Rightarrow> toLocaleDateString h t)"

text \<open>\<^verbatim>\<open>data.name || 'Member'\<close>, as the text a template literal makes of it.\<close>

definition recipientName :: "host \<Rightarrow> (columnKey \<Rightarrow> cell) \<Rightarrow> string" where
  "recipientName h d = (if falsy (d Name) then ''Member'' else toString h (d Name))"

text \<open>The pieces of the body, one for the initial value and one for each \<^verbatim>\<open>body += ...\<close>.\<close>

definition bodyParts :: "host \<Rightarrow> (columnKey \<Rightarrow> cell) \<Rightarrow> string list" where
  "bodyParts h d =
     [''Hello '' @ recipientName h d @ '',\<newline>\<newline>'',
      ''You've been added to the late sheet with the following details:\<newline>\<newline>'']
     @ (if falsy (d Date) then [] else [''Date: '' @ formatDate h (d Date) @ ''\<newline>''])
     @ (if falsy (d Violation) then []
        else [''Violation: '' @ toString h (d Violation) @ ''\<newline>''])
     @ (if falsy (d HowLate) then [] else [''How Late: '' @ toString h (d HowLate) @ ''\<newline>''])
     @ (if falsy (d Notes) then [] else [''Notes: '' @ toString h (d Notes) @ ''\<newline>''])
     @ [''\<newline>Best regards,\<newline>Late Sheet System'']"

text \<open>
  \<^verbatim>\<open>sendLateSheetEmail(data)\<close>: the message handed to \<^verbatim>\<open>MailApp.sendEmail\<close>. Whether that
  call returns is decided by the caller's environment.
\<close>

definition sendLateSheetEmail :: "host \<Rightarrow> (columnKey \<Rightarrow> cell) \<Rightarrow> mail" where
  "sendLateSheetEmail h d =
     \<lparr>mailTo = recipientName h d @ ''@directactioneverywhere.com'',
      subject = ''You've been added to the late sheet.'',
      body = concat (bodyParts h d)\<rparr>"

section \<open>Processing the rows\<close>

text \<open>
  Writing one cell, rows and columns counted from 1. The cells this program writes lie
  inside the grid; a write past the end of a row or of the grid extends it with empty
  cells, as the sheet does.
\<close>

definition putAt :: "cell list \<Rightarrow> nat \<Rightarrow> cell \<Rightarrow> cell list" where
  "putAt row i v =
     (if i < length row then row[i := v]
      else row @ replicate (i - length row) (Text []) @ [v])"

definition setValue :: "cell list list \<Rightarrow> nat \<Rightarrow> nat \<Rightarrow> cell \<Rightarrow> cell list list" where
  "setValue vals r c v =
     (if r - 1 < length vals then vals[r - 1 := putAt (vals ! (r - 1)) (c - 1) v]
      else vals @ replicate (r - 1 - length vals) [] @ [putAt [] (c - 1) v])"

text \<open>
  \<^verbatim>\<open>sheet.getRange(rowInfo.rowNumber, columnIndices.emailSent + 1).setValue(v)\<close> inside
  the \<^verbatim>\<open>try\<close>: the state is the grid and the list of calls. \<^verbatim>\<open>getRange\<close> throws without
  a call of \<^verbatim>\<open>setValue\<close> when the column is undefined or a coordinate is below 1.
\<close>

definition setEmailSent ::
  "env \<Rightarrow> (columnKey \<rightharpoonup> nat) \<Rightarrow> rowInfo \<Rightarrow> cell \<Rightarrow> cell list list \<times> event list
     \<Rightarrow> cell list list \<times> event list" where
  "setEmailSent e ci rowInfo v st =
     (case st of (vals, calls) \<Rightarrow>
        (case ci EmailSent of
           None \<Rightarrow> (vals, calls)
         | Some j \<Rightarrow>
            if rowNumber rowInfo < 1 then (vals, calls)
            else if setValueThrows e (rowNumber rowInfo)
            then (vals, calls @ [SetValue (rowNumber rowInfo) (j + 1) v False])
            else (setValue vals (rowNumber rowInfo) (j + 1) v,
                  calls @ [SetValue (rowNumber rowInfo) (j + 1) v True])))"

text \<open>The callback of \<^verbatim>\<open>unprocessedRows.forEach\<close>; its \<^verbatim>\<open>catch\<close> only logs.\<close>

definition processRow ::
  "host \<Rightarrow> env \<Rightarrow> spreadsheet \<Rightarrow> (columnKey \<rightharpoonup> nat) \<Rightarrow> validation option \<Rightarrow> rowInfo
     \<Rightarrow> cell list list \<times> event list \<Rightarrow> cell list list \<times> event list" where
  "processRow h e spreadsheet ci nv rowInfo st =
     (case st of (vals, calls) \<Rightarrow>
        if \<not> isValidName h nv (data rowInfo Name) (getRangeValues spreadsheet)
        then setEmailSent e ci rowInfo (Text ''invalid name'') (vals, calls)
        else if sendEmailThrows e (rowNumber rowInfo)
        then (vals, calls @ [SendEmail (rowNumber rowInfo) (sendLateSheetEmail h (data rowInfo)) False])
        else setEmailSent e ci rowInfo (DateTime (timestamp e (rowNumber rowInfo)))
               (vals,
                calls @ [SendEmail (rowNumber rowInfo) (sendLateSheetEmail h (data rowInfo)) True]))"

fun forEachRow ::
  "host \<Rightarrow> env \<Rightarrow> spreadsheet \<Rightarrow> (columnKey \<rightharpoonup> nat) \<Rightarrow> validation option \<Rightarrow> rowInfo list
     \<Rightarrow> cell list list \<times> event list \<Rightarrow> cell list list \<times> event list" where
  "forEachRow h e spreadsheet ci nv [] st = st"
| "forEachRow h e spreadsheet ci nv (rowInfo # rest) st =
     forEachRow h e spreadsheet ci nv rest (processRow h e spreadsheet ci nv rowInfo st)"

text \<open>
  \<^verbatim>\<open>processSheet(spreadsheet, sheet)\<close>: the sheet after the run and the calls made. The
  grid is read once, by \<^verbatim>\<open>readColumnData\<close>.
\<close>

fun processSheet ::
  "host \<Rightarrow> env \<Rightarrow> spreadsheet \<Rightarrow> sheet option \<Rightarrow> sheet option \<times> event list" where
  "processSheet h e spreadsheet None = (None, [])"
| "processSheet h e spreadsheet (Some sheet) =
     (case readColumnData sheet of
        None \<Rightarrow> (Some sheet, [])
      | Some cd \<Rightarrow>
         (case forEachRow h e spreadsheet (columnIndices cd) (nameValidation cd)
                 (findUnprocessed h (columnIndices cd) (gridValues cd) 1 [])
                 (getValues sheet, []) of
            (vals, calls) \<Rightarrow> (Some (sheet\<lparr>getValues := vals\<rparr>), calls)))"

section \<open>The entry points\<close>

definition processLateSheet ::
  "host \<Rightarrow> env \<Rightarrow> spreadsheet \<Rightarrow> spreadsheet \<times> event list" where
  "processLateSheet h e spreadsheet =
     (let currentYear = numberToString h (fullYear e) in
      if currentYear = ''2025'' then (spreadsheet, [])
      else case getSheetByName spreadsheet currentYear of
             None \<Rightarrow> (spreadsheet, [])
           | Some sheet \<Rightarrow>
              (case processSheet h e spreadsheet (Some sheet) of
                 (sheet', calls) \<Rightarrow>
                   (spreadsheet\<lparr>getSheetByName := (getSheetByName spreadsheet)(currentYear := sheet')\<rparr>,
                    calls)))"

text \<open>
  \<^verbatim>\<open>getSpreadsheetForThisYear()\<close>: the result of \<^verbatim>\<open>SpreadsheetApp.openByUrl\<close> at the
  fixed address; \<open>None\<close> is \<^verbatim>\<open>null\<close>.
\<close>

definition spreadsheetUrl :: string where
  "spreadsheetUrl =
     ''https://docs.google.com/spreadsheets/d/1j_3it9c1WMn9z_1r4qvENPPcd_Sl3jDImR1GLZwN0Lo''"

definition getSpreadsheetForThisYear ::
  "(string \<Rightarrow> spreadsheet option) \<Rightarrow> spreadsheet option" where
  "getSpreadsheetForThisYear openByUrl = openByUrl spreadsheetUrl"

definition processLateSheetIfNotModifiedRecently ::
  "host \<Rightarrow> env \<Rightarrow> (string \<Rightarrow> spreadsheet option) \<Rightarrow> spreadsheet option \<times> event list" where
  "processLateSheetIfNotModifiedRecently h e openByUrl =
     (case getSpreadsheetForThisYear openByUrl of
        None \<Rightarrow> (None, [])
      | Some spreadsheet \<Rightarrow>
          if wasSheetModifiedRecently e spreadsheet then (Some spreadsheet, [])
          else (case processLateSheet h e spreadsheet of (sp, calls) \<Rightarrow> (Some sp, calls)))"

definition processLateSheetNow ::
  "host \<Rightarrow> env \<Rightarrow> (string \<Rightarrow> spreadsheet option) \<Rightarrow> spreadsheet option \<times> event list" where
  "processLateSheetNow h e openByUrl =
     (case getSpreadsheetForThisYear openByUrl of
        None \<Rightarrow> (None, [])
      | Some spreadsheet \<Rightarrow>
          (case processLateSheet h e spreadsheet of (sp, calls) \<Rightarrow> (Some sp, calls)))"


section \<open>Notions used in the statements\<close>

text \<open>
  The rendering of a date is never blank: \<^verbatim>\<open>Date.prototype.toString\<close> returns a
  formatted date or the text \<^verbatim>\<open>Invalid Date\<close>. The script leaves this to the
  library, so it is a condition on the host.
\<close>

definition datesRender :: "host \<Rightarrow> bool" where
  "datesRender h = (\<forall>t. trim (dateToString h t) \<noteq> [])"

text \<open>
  The record that the selection loop builds for the data row at index \<open>i\<close> of the grid.
\<close>

definition mkRow :: "(columnKey \<rightharpoonup> nat) \<Rightarrow> cell list list \<Rightarrow> nat \<Rightarrow> rowInfo" where
  "mkRow ci vals i = \<lparr>rowNumber = i + 1, data = (\<lambda>key. lookupCell ci (vals ! i) key)\<rparr>"

subsection \<open>The reference policy of the identity validator\<close>

text \<open>
  The policy in the words of the specification. The kind of a rule, the literal set of
  a list rule and the reference of a range rule are read off the validation object: a
  rule whose kind cannot be read counts as unrecognized, a payload that cannot be read
  or is missing as absent.
\<close>

datatype ruleKind = ListRule | RangeRule | UnrecognizedRule

definition ruleKind :: "validation \<Rightarrow> ruleKind" where
  "ruleKind v =
     (case getCriteriaType v of
        Returns VALUE_IN_LIST \<Rightarrow> ListRule
      | Returns VALUE_IN_RANGE \<Rightarrow> RangeRule
      | _ \<Rightarrow> UnrecognizedRule)"

definition payload :: "validation \<Rightarrow> criterion" where
  "payload v =
     (case getCriteriaValues v of
        Returns (Some (c # _)) \<Rightarrow> c
      | _ \<Rightarrow> Absent)"

definition literalSet :: "validation \<Rightarrow> string list option" where
  "literalSet v = (case payload v of StringList xs \<Rightarrow> Some xs | _ \<Rightarrow> None)"

definition rangeReference :: "validation \<Rightarrow> string option" where
  "rangeReference v = (case payload v of Absent \<Rightarrow> None | c \<Rightarrow> Some (criterionToString c))"

definition referencePolicy ::
  "host \<Rightarrow> validation option \<Rightarrow> string \<Rightarrow> (string \<Rightarrow> cell list option) \<Rightarrow> bool" where
  "referencePolicy h rule identity resolve =
     (if trim identity = [] then False
      else case rule of
        None \<Rightarrow> True
      | Some v \<Rightarrow>
         (case ruleKind v of
            ListRule \<Rightarrow>
              (case literalSet v of
                 None \<Rightarrow> True
               | Some members \<Rightarrow>
                   if members = [] then True
                   else trim identity \<in> trim ` set members)
          | RangeRule \<Rightarrow>
              (case rangeReference v of
                 None \<Rightarrow> True
               | Some reference \<Rightarrow>
                  (case resolve reference of
                     None \<Rightarrow> True
                   | Some vals \<Rightarrow> trim identity \<in> (\<lambda>val. trim (toString h val)) ` set vals))
          | UnrecognizedRule \<Rightarrow> True))"

text \<open>
  A list rule that carries a literal set with no member.
\<close>

definition emptyListRule :: "validation option \<Rightarrow> bool" where
  "emptyListRule rule =
     (case rule of None \<Rightarrow> False
      | Some v \<Rightarrow> ruleKind v = ListRule \<and> literalSet v = Some [])"

text \<open>
  A rule on which the validator's own reading fails: the kind or the payloads cannot be
  read, a list rule carries a payload that is no list, or the reference of a range rule
  cannot be resolved.
\<close>

definition validationThrows :: "validation \<Rightarrow> (string \<Rightarrow> cell list option) \<Rightarrow> bool" where
  "validationThrows v getRange =
     (case getCriteriaType v of
        Throws \<Rightarrow> True
      | Returns criteriaType \<Rightarrow>
         (case getCriteriaValues v of
            Throws \<Rightarrow> True
          | Returns criteriaValues \<Rightarrow>
             if criteriaType = VALUE_IN_LIST then
               (case criteriaValues of Some (RangeRef _ # _) \<Rightarrow> True | _ \<Rightarrow> False)
             else if criteriaType = VALUE_IN_RANGE then
               (case criteriaValues of
                  Some (Absent # _) \<Rightarrow> False
                | Some (c # _) \<Rightarrow> getRange (criterionToString c) = None
                | _ \<Rightarrow> False)
             else False))"

subsection \<open>Blank cells\<close>

text \<open>
  A cell that is empty or holds only white space, in the words of the specification, and
  the cells the selection loop takes for unprocessed: the former, the number 0 and the
  boolean \<^verbatim>\<open>false\<close>.
\<close>

definition emptyOrWhitespace :: "cell \<Rightarrow> bool" where
  "emptyOrWhitespace c = (case c of Text s \<Rightarrow> trim s = [] | _ \<Rightarrow> False)"

definition unmarked :: "cell \<Rightarrow> bool" where
  "unmarked c =
     (case c of Text s \<Rightarrow> trim s = [] | Number n \<Rightarrow> n = 0 | Boolean b \<Rightarrow> \<not> b
      | DateTime t \<Rightarrow> False)"

subsection \<open>The lines of the notification\<close>

definition detailKeys :: "columnKey list" where
  "detailKeys = [Date, Violation, HowLate, Notes]"

text \<open>
  The line of the body that reports a detail column.
\<close>

definition fieldLine :: "host \<Rightarrow> (columnKey \<Rightarrow> cell) \<Rightarrow> columnKey \<Rightarrow> string" where
  "fieldLine h d key =
     (if key = Date then ''Date: '' @ formatDate h (d Date) @ ''\<newline>''
      else if key = Violation then ''Violation: '' @ toString h (d Violation) @ ''\<newline>''
      else if key = HowLate then ''How Late: '' @ toString h (d HowLate) @ ''\<newline>''
      else if key = Notes then ''Notes: '' @ toString h (d Notes) @ ''\<newline>''
      else [])"

subsection \<open>Calls, runs and counts\<close>

fun eventRow :: "event \<Rightarrow> nat" where
  "eventRow (SendEmail n m ok) = n"
| "eventRow (SetValue n c v ok) = n"

fun isSendEmail :: "event \<Rightarrow> bool" where
  "isSendEmail (SendEmail n m ok) = True"
| "isSendEmail (SetValue n c v ok) = False"

fun returned :: "event \<Rightarrow> bool" where
  "returned (SendEmail n m ok) = ok"
| "returned (SetValue n c v ok) = ok"

definition summary :: "event \<Rightarrow> nat \<times> bool \<times> bool" where
  "summary ev = (eventRow ev, isSendEmail ev, returned ev)"

text \<open>
  For row \<open>n\<close>: the notifications delivered (calls of \<^verbatim>\<open>sendEmail\<close> that returned),
  the calls of \<^verbatim>\<open>sendEmail\<close> and the calls of \<^verbatim>\<open>setValue\<close>.
\<close>

definition notifications :: "nat \<Rightarrow> event list \<Rightarrow> nat" where
  "notifications n calls =
     length (filter (\<lambda>ev. isSendEmail ev \<and> returned ev) (filter (\<lambda>ev. eventRow ev = n) calls))"

definition sendCalls :: "nat \<Rightarrow> event list \<Rightarrow> nat" where
  "sendCalls n calls = length (filter isSendEmail (filter (\<lambda>ev. eventRow ev = n) calls))"

definition writeCalls :: "nat \<Rightarrow> event list \<Rightarrow> nat" where
  "writeCalls n calls =
     length (filter (\<lambda>ev. \<not> isSendEmail ev) (filter (\<lambda>ev. eventRow ev = n) calls))"

text \<open>
  A call that tried to write a time stamp into the emailSent cell of row \<open>n\<close> and
  threw.
\<close>

fun isStamp :: "event \<Rightarrow> bool" where
  "isStamp (SetValue n c (DateTime t) ok) = True"
| "isStamp ev = False"

definition stampFailed :: "nat \<Rightarrow> event \<Rightarrow> bool" where
  "stampFailed n ev = (eventRow ev = n \<and> isStamp ev \<and> \<not> returned ev)"

text \<open>
  The grid of a sheet, if there is one.
\<close>

definition gridOf :: "sheet option \<Rightarrow> cell list list" where
  "gridOf so = (case so of None \<Rightarrow> [] | Some sheet \<Rightarrow> getValues sheet)"

text \<open>
  A sequence of runs on one sheet with no edit in between; each run has its own
  environment and its own view of the rest of the spreadsheet.
\<close>

fun runs :: "host \<Rightarrow> (env \<times> spreadsheet) list \<Rightarrow> sheet option \<Rightarrow> sheet option \<times> event list" where
  "runs h [] sheet = (sheet, [])"
| "runs h ((e, sp) # rest) sheet =
     (case processSheet h e sp sheet of
        (sheet', calls) \<Rightarrow>
          (case runs h rest sheet' of (sheet'', calls') \<Rightarrow> (sheet'', calls @ calls')))"

text \<open>
  Two environments that treat every row but \<open>n\<close> alike.
\<close>

definition agreeExcept :: "nat \<Rightarrow> env \<Rightarrow> env \<Rightarrow> bool" where
  "agreeExcept n e e' =
     (\<forall>m. m \<noteq> n \<longrightarrow> sendEmailThrows e' m = sendEmailThrows e m
        \<and> setValueThrows e' m = setValueThrows e m \<and> timestamp e' m = timestamp e m)"

section \<open>Notions used in the proofs\<close>

text \<open>
  What the callback does for one row, as a list of calls and as the value it stores, if
  any; \<open>j\<close> is the index of the emailSent column.
\<close>

definition rowLog ::
  "host \<Rightarrow> env \<Rightarrow> spreadsheet \<Rightarrow> nat \<Rightarrow> validation option \<Rightarrow> rowInfo \<Rightarrow> event list" where
  "rowLog h e sp j nv r =
     (if \<not> isValidName h nv (data r Name) (getRangeValues sp)
      then [SetValue (rowNumber r) (j + 1) (Text ''invalid name'') (\<not> setValueThrows e (rowNumber r))]
      else if sendEmailThrows e (rowNumber r)
      then [SendEmail (rowNumber r) (sendLateSheetEmail h (data r)) False]
      else [SendEmail (rowNumber r) (sendLateSheetEmail h (data r)) True,
            SetValue (rowNumber r) (j + 1) (DateTime (timestamp e (rowNumber r)))
              (\<not> setValueThrows e (rowNumber r))])"

definition rowValue ::
  "host \<Rightarrow> env \<Rightarrow> spreadsheet \<Rightarrow> validation option \<Rightarrow> rowInfo \<Rightarrow> cell option" where
  "rowValue h e sp nv r =
     (if setValueThrows e (rowNumber r) then None
      else if \<not> isValidName h nv (data r Name) (getRangeValues sp)
      then Some (Text ''invalid name'')
      else if sendEmailThrows e (rowNumber r) then None
      else Some (DateTime (timestamp e (rowNumber r))))"

definition store :: "nat \<Rightarrow> cell list list \<Rightarrow> rowInfo \<Rightarrow> cell option \<Rightarrow> cell list list" where
  "store j vals r w =
     (case w of None \<Rightarrow> vals | Some v \<Rightarrow> setValue vals (rowNumber r) (j + 1) v)"

definition inGrid :: "cell list list \<Rightarrow> rowInfo list \<Rightarrow> bool" where
  "inGrid vals rs = (\<forall>r\<in>set rs. Suc 0 \<le> rowNumber r \<and> rowNumber r \<le> length vals)"

text \<open>
  The row at index \<open>i\<close> is taken for unprocessed.
\<close>

definition blankRow :: "host \<Rightarrow> (columnKey \<rightharpoonup> nat) \<Rightarrow> cell list list \<Rightarrow> nat \<Rightarrow> bool" where
  "blankRow h ci vals i = isBlank h (lookupCell ci (vals ! i) EmailSent)"

text \<open>
  The grid and the calls after a run on a sheet whose header resolves.
\<close>

definition gridAfter ::
  "host \<Rightarrow> env \<Rightarrow> spreadsheet \<Rightarrow> columnData \<Rightarrow> nat \<Rightarrow> cell list list" where
  "gridAfter h e sp cd j =
     foldl (\<lambda>g r. store j g r (rowValue h e sp (nameValidation cd) r)) (gridValues cd)
       (findUnprocessed h (columnIndices cd) (gridValues cd) (Suc 0) [])"

definition logOf ::
  "host \<Rightarrow> env \<Rightarrow> spreadsheet \<Rightarrow> columnData \<Rightarrow> nat \<Rightarrow> event list" where
  "logOf h e sp cd j =
     concat (map (rowLog h e sp j (nameValidation cd))
       (findUnprocessed h (columnIndices cd) (gridValues cd) (Suc 0) []))"

text \<open>
  Row \<open>n\<close> of the sheet will be selected by the next run.
\<close>

definition pending :: "host \<Rightarrow> sheet option \<Rightarrow> nat \<Rightarrow> bool" where
  "pending h so n =
     (case so of
        None \<Rightarrow> False
      | Some sheet \<Rightarrow>
         (case readColumnData sheet of
            None \<Rightarrow> False
          | Some cd \<Rightarrow>
              2 \<le> n \<and> n \<le> length (gridValues cd)
              \<and> blankRow h (columnIndices cd) (gridValues cd) (n - 1)))"

section \<open>Sample inputs\<close>

text \<open>
  A host on which no string parses as a date, every date prints alike, one half prints
  as \<^verbatim>\<open>0.5\<close> and any other number that needs a decimal form as \<^verbatim>\<open>1e+21\<close>.
\<close>

definition host0 :: host where
  "host0 = \<lparr>dateToString = (\<lambda>t. ''Invalid Date''), toLocaleDateString = (\<lambda>t. ''January 1''),
            dateParse = (\<lambda>s. None), decimalDigits = (\<lambda>x. if x = 1 / 2 then 5 else 1),
            decimalPoint = (\<lambda>x. if x = 1 / 2 then 0 else 22)\<rparr>"

definition listRule :: "string list \<Rightarrow> validation" where
  "listRule members =
     \<lparr>getCriteriaType = Returns VALUE_IN_LIST,
      getCriteriaValues = Returns (Some [StringList members, RangeRef ''true''])\<rparr>"

definition noRange :: "string \<Rightarrow> cell list option" where
  "noRange a1 = None"

definition header0 :: "cell list" where
  "header0 = [Text ''Name'', Text ''Date'', Text ''Violation'', Text ''How Late?'', Text ''Notes'',
              Text ''Email sent'', Text ''Coach notified'']"

definition noValidation :: "nat \<Rightarrow> nat \<Rightarrow> validation option call" where
  "noValidation r c = Returns None"

definition sheetOf :: "cell list list \<Rightarrow> sheet" where
  "sheetOf rows = \<lparr>getValues = header0 # rows, getDataValidation = noValidation\<rparr>"

definition rowOf :: "cell \<Rightarrow> cell \<Rightarrow> cell list" where
  "rowOf who mark = [who, DateTime 0, Text ''late'', Number 5, Text [], mark, Text []]"

definition noNotes :: sheet where
  "noNotes =
     \<lparr>getValues = [[Text ''Name'', Text ''Date'', Text ''Violation'', Text ''How Late?'',
                    Text ''Email sent'', Text ''Coach notified''],
                   [Text ''alice'', DateTime 0, Text ''late'', Number 5, Text [], Text []]],
      getDataValidation = noValidation\<rparr>"

definition grid0 :: "cell list list" where
  "grid0 = [header0, rowOf (Text ''alice'') (Text []), rowOf (Text ''bob'') (DateTime 7),
            rowOf (Text ''carol'') (Text ''  ''), rowOf (Text ''dave'') (Text ''invalid name''),
            rowOf (Text ''erin'') (Number (1 / 2)), rowOf (Text ''frank'') (Text [CHR 0xA0])]"

fun whitespaceNotes :: "columnKey \<Rightarrow> cell" where
  "whitespaceNotes Name = Text ''alice''"
| "whitespaceNotes Date = DateTime 0"
| "whitespaceNotes Violation = Text ''late''"
| "whitespaceNotes HowLate = Number 0"
| "whitespaceNotes Notes = Text ''  ''"
| "whitespaceNotes EmailSent = Text []"
| "whitespaceNotes CoachNotified = Text []"

definition never :: "nat \<Rightarrow> bool" where
  "never n = False"

definition always :: "nat \<Rightarrow> bool" where
  "always n = True"

definition onlyRow2 :: "nat \<Rightarrow> bool" where
  "onlyRow2 n = (n = 2)"

definition clock0 :: "nat \<Rightarrow> int" where
  "clock0 n = 1000000"

definition env0 :: env where
  "env0 = \<lparr>nowMs = 1000000, fullYear = 2026, timestamp = clock0, sendEmailThrows = never,
           setValueThrows = never\<rparr>"

definition envWriteFails :: env where
  "envWriteFails = env0\<lparr>setValueThrows := always\<rparr>"

definition envSendFails :: env where
  "envSendFails = env0\<lparr>sendEmailThrows := always\<rparr>"

definition envRow2Fails :: env where
  "envRow2Fails = env0\<lparr>sendEmailThrows := onlyRow2\<rparr>"

definition env2025 :: env where
  "env2025 = env0\<lparr>fullYear := 2025\<rparr>"

definition oneRow :: sheet where
  "oneRow = sheetOf [rowOf (Text ''alice'') (Text [])]"

definition twoRows :: sheet where
  "twoRows = sheetOf [rowOf (Text ''alice'') (Text []), rowOf (Text ''bob'') (Text [])]"

definition namelessRow :: sheet where
  "namelessRow = sheetOf [rowOf (Text []) (Text [])]"

definition brokenRule :: validation where
  "brokenRule = \<lparr>getCriteriaType = Throws, getCriteriaValues = Throws\<rparr>"

definition brokenValidation :: "nat \<Rightarrow> nat \<Rightarrow> validation option call" where
  "brokenValidation r c = Returns (Some brokenRule)"

definition brokenSheet :: sheet where
  "brokenSheet = oneRow\<lparr>getDataValidation := brokenValidation\<rparr>"

definition columnDataOf :: "sheet \<Rightarrow> columnData" where
  "columnDataOf sheet =
     \<lparr>columnIndices = scanHeader header0 0 Map.empty, gridValues = getValues sheet,
      nameValidation = None\<rparr>"

definition noSheets :: "string \<Rightarrow> sheet option" where
  "noSheets name = None"

definition everySheet :: "string \<Rightarrow> sheet option" where
  "everySheet name = Some oneRow"

definition book :: spreadsheet where
  "book = \<lparr>getSheetByName = noSheets, getLastUpdated = Returns 0, getRangeValues = noRange\<rparr>"

definition bookWithSheet :: spreadsheet where
  "bookWithSheet = book\<lparr>getSheetByName := everySheet\<rparr>"

definition bookWithoutNotes :: spreadsheet where
  "bookWithoutNotes = book\<lparr>getSheetByName := (\<lambda>name. Some noNotes)\<rparr>"

definition modifiedAt :: "int \<Rightarrow> spreadsheet" where
  "modifiedAt t = bookWithSheet\<lparr>getLastUpdated := Returns t\<rparr>"

definition unknownModification :: spreadsheet where
  "unknownModification = bookWithSheet\<lparr>getLastUpdated := Throws\<rparr>"

definition opens :: "spreadsheet \<Rightarrow> string \<Rightarrow> spreadsheet option" where
  "opens sp url = Some sp"

section \<open>Trimming and rendering\<close>

lemma trim_Nil [simp]: "trim [] = []"
  by (simp add: trim_def)

lemma trim_eq_Nil: "trim s = [] \<longleftrightarrow> (\<forall>c\<in>set s. isSpace c)"
proof -
  have "trim s = [] \<longleftrightarrow> (\<forall>c\<in>set (dropWhile isSpace s). isSpace c)"
    by (simp add: trim_def dropWhile_eq_Nil_conv)
  also have "\<dots> \<longleftrightarrow> dropWhile isSpace s = []"
  proof
    assume a: "\<forall>c\<in>set (dropWhile isSpace s). isSpace c"
    show "dropWhile isSpace s = []"
    proof (rule ccontr)
      assume n: "dropWhile isSpace s \<noteq> []"
      then have "\<not> isSpace (hd (dropWhile isSpace s))" by (rule hd_dropWhile)
      moreover have "hd (dropWhile isSpace s) \<in> set (dropWhile isSpace s)" using n by simp
      ultimately show False using a by blast
    qed
  next
    assume "dropWhile isSpace s = []"
    then show "\<forall>c\<in>set (dropWhile isSpace s). isSpace c" by (simp del: dropWhile_eq_Nil_conv)
  qed
  also have "\<dots> \<longleftrightarrow> (\<forall>c\<in>set s. isSpace c)"
    by (simp add: dropWhile_eq_Nil_conv)
  finally show ?thesis .
qed

lemma digitChar_not_space: "d < 10 \<Longrightarrow> \<not> isSpace (digitChar d)"
proof -
  assume "d < 10"
  then have "d \<in> {0, 1, 2, 3, 4, 5, 6, 7, 8, 9}" by auto
  then show ?thesis by (auto simp: digitChar_def isSpace_def)
qed

lemma digits_not_Nil: "digits n \<noteq> []"
  by (subst digits.simps) simp

lemma digits_no_space: "c \<in> set (digits n) \<Longrightarrow> \<not> isSpace c"
proof (induction n arbitrary: c rule: digits.induct)
  case (1 n)
  show ?case
  proof (cases "n < 10")
    case True
    with "1.prems" show ?thesis
      by (subst (asm) digits.simps) (simp add: digitChar_not_space)
  next
    case False
    with "1.prems" have "c \<in> set (digits (n div 10)) \<or> c = digitChar (n mod 10)"
      by (subst (asm) digits.simps) auto
    then show ?thesis using "1.IH" False by (auto simp: digitChar_not_space)
  qed
qed

lemma decimalForm_not_blank:
  assumes "ds \<noteq> []" and "\<forall>c\<in>set ds. \<not> isSpace c"
  shows "\<exists>c\<in>set (decimalForm ds n). \<not> isSpace c"
proof -
  from assms have h: "hd ds \<in> set ds" "\<not> isSpace (hd ds)" by simp_all
  have p: "\<not> isSpace CHR ''.''" and e: "\<not> isSpace CHR ''e''"
    by (simp_all add: isSpace_def)
  consider
      (a) "int (length ds) \<le> n \<and> n \<le> 21"
    | (b) "\<not> (int (length ds) \<le> n \<and> n \<le> 21)" "0 < n \<and> n \<le> 21"
    | (c) "\<not> (int (length ds) \<le> n \<and> n \<le> 21)" "\<not> (0 < n \<and> n \<le> 21)" "- 6 < n \<and> n \<le> 0"
    | (d) "\<not> (int (length ds) \<le> n \<and> n \<le> 21)" "\<not> (0 < n \<and> n \<le> 21)" "\<not> (- 6 < n \<and> n \<le> 0)"
    by blast
  then show ?thesis
  proof cases
    case a
    then have "hd ds \<in> set (decimalForm ds n)" using h(1) by (auto simp: decimalForm_def)
    with h(2) show ?thesis by blast
  next
    case b
    then have "CHR ''.'' \<in> set (decimalForm ds n)" by (auto simp: decimalForm_def)
    with p show ?thesis by blast
  next
    case c
    then have "CHR ''.'' \<in> set (decimalForm ds n)" by (auto simp: decimalForm_def)
    with p show ?thesis by blast
  next
    case d
    then have "CHR ''e'' \<in> set (decimalForm ds n)" by (auto simp: decimalForm_def)
    with e show ?thesis by blast
  qed
qed

lemma decimalForm_digits: "\<exists>c\<in>set (decimalForm (digits m) n). \<not> isSpace c"
  by (rule decimalForm_not_blank) (simp_all add: digits_not_Nil digits_no_space)

lemma trim_numberToString: "trim (numberToString h n) \<noteq> []"
proof -
  have "\<exists>c\<in>set (numberToString h n). \<not> isSpace c"
  proof (cases "\<bar>n\<bar> < 10 ^ 21")
    case True
    have m: "hd (digits (nat \<bar>n\<bar>)) \<in> set (digits (nat \<bar>n\<bar>))"
      by (simp add: digits_not_Nil)
    then have "\<not> isSpace (hd (digits (nat \<bar>n\<bar>)))" by (rule digits_no_space)
    moreover have "hd (digits (nat \<bar>n\<bar>)) \<in> set (numberToString h n)"
      using True m by (simp add: numberToString_def)
    ultimately show ?thesis by blast
  next
    case False
    from decimalForm_digits obtain c where
      "c \<in> set (decimalForm (digits (decimalDigits h (of_int \<bar>n\<bar>))) (decimalPoint h (of_int \<bar>n\<bar>)))"
      "\<not> isSpace c" by blast
    moreover from this(1) have "c \<in> set (numberToString h n)"
      using False by (simp add: numberToString_def)
    ultimately show ?thesis by blast
  qed
  then show ?thesis by (auto simp: trim_eq_Nil)
qed

lemma trim_fractionToString: "trim (fractionToString h x) \<noteq> []"
proof -
  from decimalForm_digits obtain c where
    "c \<in> set (decimalForm (digits (decimalDigits h \<bar>x\<bar>)) (decimalPoint h \<bar>x\<bar>))"
    "\<not> isSpace c" by blast
  moreover from this(1) have "c \<in> set (fractionToString h x)"
    by (simp add: fractionToString_def)
  ultimately have "\<exists>c\<in>set (fractionToString h x). \<not> isSpace c" by blast
  then show ?thesis by (auto simp: trim_eq_Nil)
qed

lemma isBlank_cases:
  "isBlank h v =
     (case v of Text s \<Rightarrow> trim s = [] | Number n \<Rightarrow> n = 0 | Boolean b \<Rightarrow> \<not> b
      | DateTime t \<Rightarrow> trim (dateToString h t) = [])"
proof (cases v)
  case (Text s)
  then show ?thesis by (auto simp: isBlank_def)
next
  case (Number n)
  then show ?thesis by (simp add: isBlank_def trim_numberToString trim_fractionToString)
next
  case (Boolean b)
  have "trim ''true'' \<noteq> []" by (simp add: trim_def isSpace_def)
  with Boolean show ?thesis by (simp add: isBlank_def)
next
  case (DateTime t)
  then show ?thesis by (simp add: isBlank_def)
qed

lemma isBlank_unmarked: "datesRender h \<Longrightarrow> isBlank h c = unmarked c"
  by (cases c) (simp_all add: isBlank_cases unmarked_def datesRender_def)

lemma sentinel_not_blank: "\<not> isBlank h (Text ''invalid name'')"
  by (simp add: isBlank_def trim_def isSpace_def)

lemma timestamp_not_blank: "datesRender h \<Longrightarrow> \<not> isBlank h (DateTime t)"
  by (simp add: isBlank_cases datesRender_def)

lemma datesRender_host0: "datesRender host0"
  by (simp add: datesRender_def host0_def trim_def isSpace_def)

lemma numberToString_2025: "numberToString h 2025 = ''2025''"
  by (simp add: numberToString_def digits.simps digitChar_def)

lemma list_ex_image: "list_ex (\<lambda>x. f x = y) xs \<longleftrightarrow> y \<in> f ` set xs"
  by (auto simp: list_ex_iff)

lemma isValidName_truthy: "isValidName h nv v r \<Longrightarrow> \<not> falsy v"
  by (auto simp: isValidName_def split: if_splits)

lemma isValidName_throws:
  "validationThrows v getRange \<Longrightarrow> isValidName h (Some v) x getRange = (\<not> isBlank h x)"
  by (auto simp: validationThrows_def isValidName_def isBlank_def
      split: call.splits option.splits list.splits criterion.splits if_splits)

lemma concat_part: "x \<in> set xs \<Longrightarrow> \<exists>pre post. concat xs = pre @ x @ post"
proof -
  assume "x \<in> set xs"
  then obtain ys zs where "xs = ys @ x # zs" by (auto simp: in_set_conv_decomp)
  then have "concat xs = concat ys @ x @ concat zs" by simp
  then show ?thesis by blast
qed

section \<open>The validator and the reference policy\<close>

text \<open>
  Apart from a list rule with an empty literal set, the validator is the reference policy.
\<close>

lemma isValidName_agrees:
  "\<not> emptyListRule rule \<Longrightarrow>
   isValidName h rule (Text s) resolve = referencePolicy h rule s resolve
   \<and> isValidName h rule v resolve
        = (\<not> falsy v \<and> referencePolicy h rule (toString h v) resolve)"
  unfolding isValidName_def referencePolicy_def emptyListRule_def ruleKind_def literalSet_def
    rangeReference_def payload_def
  by (auto simp: list_ex_image
      split: option.splits call.splits criteriaType.splits list.splits criterion.splits)

section \<open>The header and the selection loop\<close>

lemma inner_keys:
  "foldl (\<lambda>ci key. if Text (columns key) = header then ci(key \<mapsto> index) else ci) ci keys k
     = (if Text (columns k) = header then Some index else ci k)"
  by (cases k) (simp_all add: keys_def)

lemma scanHeader_None:
  "scanHeader hs i ci k = None \<longleftrightarrow> ci k = None \<and> Text (columns k) \<notin> set hs"
proof (induction hs arbitrary: i ci)
  case Nil
  show ?case by simp
next
  case (Cons a hs)
  show ?case by (simp add: Cons.IH inner_keys)
qed

lemma scanHeader_Some:
  "scanHeader hs i ci k = Some j \<Longrightarrow>
     ci k = Some j \<or> (i \<le> j \<and> j < i + length hs \<and> hs ! (j - i) = Text (columns k))"
proof (induction hs arbitrary: i ci)
  case Nil
  then show ?case by simp
next
  case (Cons a hs)
  from Cons.prems have
    "scanHeader hs (Suc i)
       (foldl (\<lambda>ci key. if Text (columns key) = a then ci(key \<mapsto> i) else ci) ci keys) k = Some j"
    by simp
  from Cons.IH[OF this] show ?case
    by (auto simp: inner_keys nth_Cons' Suc_diff_le split: if_splits)
qed

lemma keys_all: "key \<in> set keys"
  by (cases key) (simp_all add: keys_def)

lemma missingColumns_Nil:
  "missingColumns ci = [] \<longleftrightarrow> (\<forall>key. ci key \<noteq> None)"
  by (auto simp: missingColumns_def filter_empty_conv keys_all)

lemma readColumnData_missing:
  "Text (columns key) \<notin> set (getValues sheet ! 0) \<Longrightarrow> readColumnData sheet = None"
proof -
  assume a: "Text (columns key) \<notin> set (getValues sheet ! 0)"
  then have "scanHeader (getValues sheet ! 0) 0 Map.empty key = None"
    by (simp add: scanHeader_None)
  then have "missingColumns (scanHeader (getValues sheet ! 0) 0 Map.empty) \<noteq> []"
    by (auto simp: missingColumns_Nil)
  then show ?thesis by (simp add: readColumnData_def Let_def)
qed

lemma readColumnData_resolves:
  "readColumnData sheet \<noteq> None \<longleftrightarrow>
     2 \<le> length (getValues sheet) \<and> (\<forall>key. Text (columns key) \<in> set (getValues sheet ! 0))"
proof -
  have "missingColumns (scanHeader (getValues sheet ! 0) 0 Map.empty) = []
          \<longleftrightarrow> (\<forall>key. Text (columns key) \<in> set (getValues sheet ! 0))"
    by (simp add: missingColumns_Nil scanHeader_None)
  then show ?thesis by (auto simp: readColumnData_def Let_def)
qed

lemma readColumnData_Some:
  assumes "readColumnData sheet = Some cd"
  shows "gridValues cd = getValues sheet"
    and "2 \<le> length (getValues sheet)"
    and "columnIndices cd = scanHeader (getValues sheet ! 0) 0 Map.empty"
    and "\<exists>j. columnIndices cd EmailSent = Some j"
proof -
  from assms have l: "\<not> length (getValues sheet) < 2"
    by (auto simp: readColumnData_def Let_def split: if_splits)
  then show "2 \<le> length (getValues sheet)" by simp
  from assms l have m: "missingColumns (scanHeader (getValues sheet ! 0) 0 Map.empty) = []"
    by (auto simp: readColumnData_def Let_def split: if_splits)
  from assms l m show g: "gridValues cd = getValues sheet"
    by (auto simp: readColumnData_def Let_def split: if_splits)
  from assms l m show c: "columnIndices cd = scanHeader (getValues sheet ! 0) 0 Map.empty"
    by (auto simp: readColumnData_def Let_def split: if_splits)
  from m have "scanHeader (getValues sheet ! 0) 0 Map.empty EmailSent \<noteq> None"
    by (simp add: missingColumns_Nil)
  with c show "\<exists>j. columnIndices cd EmailSent = Some j" by auto
qed

lemma readColumnData_frame:
  assumes "readColumnData sheet = Some cd"
    and "length vals = length (getValues sheet)"
    and "vals ! 0 = getValues sheet ! 0"
  shows "readColumnData (sheet\<lparr>getValues := vals\<rparr>) = Some (cd\<lparr>gridValues := vals\<rparr>)"
  using assms
  by (auto simp: readColumnData_def Let_def split: if_splits option.splits)

lemma emailSent_header0: "scanHeader header0 0 Map.empty EmailSent = Some 5"
  by (simp add: header0_def keys_def)

lemma readColumnData_sheetOf:
  "rows \<noteq> [] \<Longrightarrow> readColumnData (sheetOf rows) = Some (columnDataOf (sheetOf rows))"
  by (cases rows)
    (simp_all add: readColumnData_def sheetOf_def columnDataOf_def missingColumns_def keys_def
      header0_def noValidation_def)

lemma findUnprocessed_eq:
  "findUnprocessed h ci vals i acc =
     acc @ map (mkRow ci vals)
             (filter (\<lambda>k. isBlank h (lookupCell ci (vals ! k) EmailSent)) [i..<length vals])"
proof (induction h ci vals i acc rule: findUnprocessed.induct)
  case (1 h ci vals i acc)
  show ?case
  proof (cases "i < length vals")
    case False
    then show ?thesis by (subst findUnprocessed.simps) simp
  next
    case True
    then have upt: "[i..<length vals] = i # [Suc i..<length vals]"
      by (simp add: upt_conv_Cons)
    show ?thesis
    proof (cases "isBlank h (lookupCell ci (vals ! i) EmailSent)")
      case True
      with \<open>i < length vals\<close> "1.IH"(1) show ?thesis
        by (subst findUnprocessed.simps) (simp add: upt isBlank_def mkRow_def)
    next
      case False
      with \<open>i < length vals\<close> "1.IH"(2) show ?thesis
        by (subst findUnprocessed.simps) (simp add: upt isBlank_def)
    qed
  qed
qed

lemma upt_1_7: "[1..<7] = [1, 2, 3, 4, 5, 6::nat]"
  by (simp add: upt_rec)

lemma sel_eq:
  "findUnprocessed h ci vals (Suc 0) [] =
     map (mkRow ci vals) (filter (blankRow h ci vals) [Suc 0..<length vals])"
  by (simp add: findUnprocessed_eq blankRow_def[abs_def])

lemma sel_mem:
  "r \<in> set (findUnprocessed h ci vals (Suc 0) []) \<longleftrightarrow>
     (\<exists>i. Suc 0 \<le> i \<and> i < length vals \<and> blankRow h ci vals i \<and> r = mkRow ci vals i)"
  by (auto simp: sel_eq)

lemma rowNumber_mkRow [simp]: "rowNumber (mkRow ci vals i) = Suc i"
  by (simp add: mkRow_def)

lemma sel_rowNumbers:
  "map rowNumber (findUnprocessed h ci vals (Suc 0) []) =
     map Suc (filter (blankRow h ci vals) [Suc 0..<length vals])"
  by (simp add: sel_eq comp_def)

lemma sel_distinct: "distinct (map rowNumber (findUnprocessed h ci vals (Suc 0) []))"
  by (simp add: sel_rowNumbers distinct_map)

lemma sel_inGrid: "inGrid vals (findUnprocessed h ci vals (Suc 0) [])"
  by (auto simp: inGrid_def sel_mem)

lemma sel_positive: "\<forall>r\<in>set (findUnprocessed h ci vals (Suc 0) []). Suc 0 \<le> rowNumber r"
  by (auto simp: sel_mem)

lemma sel_rows:
  "Suc i \<in> rowNumber ` set (findUnprocessed h ci vals (Suc 0) []) \<longleftrightarrow>
     Suc 0 \<le> i \<and> i < length vals \<and> blankRow h ci vals i"
proof -
  have "rowNumber ` set (findUnprocessed h ci vals (Suc 0) [])
          = set (map rowNumber (findUnprocessed h ci vals (Suc 0) []))"
    by simp
  also have "\<dots> = Suc ` {i \<in> set [Suc 0..<length vals]. blankRow h ci vals i}"
    by (simp only: sel_rowNumbers set_map set_filter)
  finally show ?thesis by auto
qed

lemma sel_rows_bounds:
  "n \<in> rowNumber ` set (findUnprocessed h ci vals (Suc 0) []) \<Longrightarrow> 2 \<le> n \<and> n \<le> length vals"
  by (auto simp: sel_mem image_iff)

section \<open>One row\<close>

lemma processRow_eq:
  assumes "ci EmailSent = Some j" and "Suc 0 \<le> rowNumber r"
  shows "processRow h e sp ci nv r (vals, calls) =
           (store j vals r (rowValue h e sp nv r), calls @ rowLog h e sp j nv r)"
  using assms
  by (simp add: processRow_def setEmailSent_def rowLog_def rowValue_def store_def)

lemma forEachRow_eq:
  assumes "ci EmailSent = Some j" and "\<forall>r\<in>set rs. Suc 0 \<le> rowNumber r"
  shows "forEachRow h e sp ci nv rs (vals, calls) =
           (foldl (\<lambda>g r. store j g r (rowValue h e sp nv r)) vals rs,
            calls @ concat (map (rowLog h e sp j nv) rs))"
  using assms(2)
proof (induction rs arbitrary: vals calls)
  case Nil
  show ?case by simp
next
  case (Cons r rs)
  then show ?case using assms(1) by (simp add: processRow_eq)
qed

lemma eventRow_rowLog: "ev \<in> set (rowLog h e sp j nv r) \<Longrightarrow> eventRow ev = rowNumber r"
  by (auto simp: rowLog_def split: if_splits)

lemma filter_rowLog_other:
  "rowNumber r \<noteq> n \<Longrightarrow> filter (\<lambda>ev. eventRow ev = n) (rowLog h e sp j nv r) = []"
  by (auto simp: filter_empty_conv dest: eventRow_rowLog)

lemma filter_rowLog_same:
  "filter (\<lambda>ev. eventRow ev = rowNumber r) (rowLog h e sp j nv r) = rowLog h e sp j nv r"
  by (auto simp: filter_id_conv dest: eventRow_rowLog)

lemma filter_rowLog_away:
  "filter (\<lambda>ev. eventRow ev \<noteq> rowNumber r) (rowLog h e sp j nv r) = []"
  by (auto simp: filter_empty_conv dest: eventRow_rowLog)

lemma filter_log_absent:
  "n \<notin> rowNumber ` set rs \<Longrightarrow>
     filter (\<lambda>ev. eventRow ev = n) (concat (map (rowLog h e sp j nv) rs)) = []"
  by (induction rs) (auto simp: filter_rowLog_other)

lemma filter_log_present:
  "distinct (map rowNumber rs) \<Longrightarrow> r \<in> set rs \<Longrightarrow>
     filter (\<lambda>ev. eventRow ev = rowNumber r) (concat (map (rowLog h e sp j nv) rs))
       = rowLog h e sp j nv r"
proof (induction rs)
  case Nil
  then show ?case by simp
next
  case (Cons a rs)
  show ?case
  proof (cases "a = r")
    case True
    with Cons.prems have "rowNumber r \<notin> rowNumber ` set rs" by auto
    then show ?thesis using True by (simp add: filter_log_absent filter_rowLog_same)
  next
    case False
    with Cons.prems have "r \<in> set rs" "rowNumber a \<noteq> rowNumber r" by auto
    with Cons show ?thesis by (simp add: filter_rowLog_other)
  qed
qed

lemma rowLog_notifications:
  "length (filter (\<lambda>ev. isSendEmail ev \<and> returned ev) (rowLog h e sp j nv r)) \<le> Suc 0"
  by (simp add: rowLog_def)

lemma rowLog_sendCalls: "length (filter isSendEmail (rowLog h e sp j nv r)) \<le> Suc 0"
  by (simp add: rowLog_def)

lemma rowLog_writeCalls: "length (filter (\<lambda>ev. \<not> isSendEmail ev) (rowLog h e sp j nv r)) \<le> Suc 0"
  by (simp add: rowLog_def)

lemma rowLog_delivered:
  "filter (\<lambda>ev. isSendEmail ev \<and> returned ev) (rowLog h e sp j nv r) \<noteq> [] \<Longrightarrow>
     \<not> setValueThrows e (rowNumber r) \<Longrightarrow>
     rowValue h e sp nv r = Some (DateTime (timestamp e (rowNumber r)))"
  by (auto simp: rowLog_def rowValue_def split: if_splits)

lemma rowLog_written:
  "ev \<in> set (rowLog h e sp j nv r) \<Longrightarrow> \<not> isSendEmail ev \<Longrightarrow> returned ev \<Longrightarrow>
     rowValue h e sp nv r \<noteq> None"
  by (auto simp: rowLog_def rowValue_def split: if_splits)

lemma rowLog_all_returned:
  "\<forall>ev\<in>set (rowLog h e sp j nv r). returned ev \<Longrightarrow> rowValue h e sp nv r \<noteq> None"
  by (auto simp: rowLog_def rowValue_def split: if_splits)

lemma rowLog_failed:
  "ev \<in> set (rowLog h e sp j nv r) \<Longrightarrow> \<not> returned ev \<Longrightarrow> rowValue h e sp nv r = None"
  by (auto simp: rowLog_def rowValue_def split: if_splits)

lemma rowLog_stamped:
  "filter (\<lambda>ev. isSendEmail ev \<and> returned ev) (rowLog h e sp j nv r) \<noteq> [] \<Longrightarrow>
     \<forall>ev\<in>set (rowLog h e sp j nv r). \<not> stampFailed (rowNumber r) ev \<Longrightarrow>
     rowValue h e sp nv r = Some (DateTime (timestamp e (rowNumber r)))"
  by (auto simp: rowLog_def rowValue_def stampFailed_def split: if_splits)

lemma rowLog_resolved:
  "\<forall>ev\<in>set (rowLog h e sp j nv r). returned ev \<Longrightarrow>
     rowValue h e sp nv r =
       Some (if isValidName h nv (data r Name) (getRangeValues sp)
             then DateTime (timestamp e (rowNumber r)) else Text ''invalid name'')"
  by (auto simp: rowLog_def rowValue_def split: if_splits)

lemma rowValue_not_blank:
  "datesRender h \<Longrightarrow> rowValue h e sp nv r = Some v \<Longrightarrow> \<not> isBlank h v"
  by (auto simp: rowValue_def sentinel_not_blank timestamp_not_blank split: if_splits)

lemma rowLog_agree:
  assumes "sendEmailThrows e' (rowNumber r) = sendEmailThrows e (rowNumber r)"
    and "setValueThrows e' (rowNumber r) = setValueThrows e (rowNumber r)"
    and "timestamp e' (rowNumber r) = timestamp e (rowNumber r)"
  shows "rowLog h e' sp j nv r = rowLog h e sp j nv r"
    and "rowValue h e' sp nv r = rowValue h e sp nv r"
  using assms by (simp_all add: rowLog_def rowValue_def)

lemma logs_agree:
  assumes "\<forall>m. m \<noteq> n \<longrightarrow> sendEmailThrows e' m = sendEmailThrows e m
             \<and> setValueThrows e' m = setValueThrows e m \<and> timestamp e' m = timestamp e m"
  shows "filter (\<lambda>ev. eventRow ev \<noteq> n) (concat (map (rowLog h e' sp j nv) rs))
           = filter (\<lambda>ev. eventRow ev \<noteq> n) (concat (map (rowLog h e sp j nv) rs))"
proof (induction rs)
  case Nil
  show ?case by simp
next
  case (Cons r rs)
  show ?case
  proof (cases "rowNumber r = n")
    case True
    then show ?thesis using Cons.IH filter_rowLog_away[of r h _ sp j nv] by auto
  next
    case False
    with assms have "rowLog h e' sp j nv r = rowLog h e sp j nv r"
      by (intro rowLog_agree) simp_all
    then show ?thesis using Cons.IH by simp
  qed
qed

section \<open>The grid\<close>

lemma cellAt_putAt_same [simp]: "cellAt (putAt row j v) j = v"
  by (simp add: cellAt_def putAt_def nth_append)

lemma setValue_inside:
  "Suc 0 \<le> n \<Longrightarrow> n \<le> length vals \<Longrightarrow>
     setValue vals n c v = vals[n - 1 := putAt (vals ! (n - 1)) (c - 1) v]"
proof -
  assume "Suc 0 \<le> n" "n \<le> length vals"
  then have "n - 1 < length vals" by arith
  then show ?thesis by (simp add: setValue_def)
qed

lemma store_length:
  "Suc 0 \<le> rowNumber r \<Longrightarrow> rowNumber r \<le> length vals \<Longrightarrow> length (store j vals r w) = length vals"
  by (cases w) (simp_all add: store_def setValue_inside)

lemma store_other:
  "Suc 0 \<le> rowNumber r \<Longrightarrow> rowNumber r \<le> length vals \<Longrightarrow> Suc i \<noteq> rowNumber r \<Longrightarrow>
     store j vals r w ! i = vals ! i"
  by (cases w) (auto simp: store_def setValue_inside)

lemma store_same:
  "Suc 0 \<le> rowNumber r \<Longrightarrow> rowNumber r \<le> length vals \<Longrightarrow> Suc i = rowNumber r \<Longrightarrow>
     store j vals r w ! i = (case w of None \<Rightarrow> vals ! i | Some v \<Rightarrow> putAt (vals ! i) j v)"
proof -
  assume a: "Suc 0 \<le> rowNumber r" "rowNumber r \<le> length vals" "Suc i = rowNumber r"
  then have "rowNumber r - 1 = i" "i < length vals" by arith+
  with a show ?thesis by (cases w) (simp_all add: store_def setValue_inside)
qed

lemma stores_length:
  "inGrid vals rs \<Longrightarrow> length (foldl (\<lambda>g r. store j g r (w r)) vals rs) = length vals"
proof (induction rs arbitrary: vals)
  case Nil
  show ?case by simp
next
  case (Cons a rs)
  have l: "length (store j vals a (w a)) = length vals"
    using Cons.prems by (simp add: inGrid_def store_length)
  then have "inGrid (store j vals a (w a)) rs" using Cons.prems by (simp add: inGrid_def)
  from Cons.IH[OF this] l show ?case by simp
qed

lemma stores_other:
  "inGrid vals rs \<Longrightarrow> Suc i \<notin> rowNumber ` set rs \<Longrightarrow>
     foldl (\<lambda>g r. store j g r (w r)) vals rs ! i = vals ! i"
proof (induction rs arbitrary: vals)
  case Nil
  show ?case by simp
next
  case (Cons a rs)
  have l: "length (store j vals a (w a)) = length vals"
    using Cons.prems by (simp add: inGrid_def store_length)
  then have g: "inGrid (store j vals a (w a)) rs" using Cons.prems by (simp add: inGrid_def)
  have "store j vals a (w a) ! i = vals ! i"
    using Cons.prems by (intro store_other) (auto simp: inGrid_def)
  with Cons.IH[OF g] Cons.prems show ?case by simp
qed

lemma stores_same:
  "inGrid vals rs \<Longrightarrow> distinct (map rowNumber rs) \<Longrightarrow> r \<in> set rs \<Longrightarrow> Suc i = rowNumber r \<Longrightarrow>
     foldl (\<lambda>g r. store j g r (w r)) vals rs ! i
       = (case w r of None \<Rightarrow> vals ! i | Some v \<Rightarrow> putAt (vals ! i) j v)"
proof (induction rs arbitrary: vals)
  case Nil
  then show ?case by simp
next
  case (Cons a rs)
  have l: "length (store j vals a (w a)) = length vals"
    using Cons.prems by (simp add: inGrid_def store_length)
  then have g: "inGrid (store j vals a (w a)) rs" using Cons.prems by (simp add: inGrid_def)
  show ?case
  proof (cases "a = r")
    case True
    with Cons.prems have "Suc i \<notin> rowNumber ` set rs" by auto
    from stores_other[OF g this]
    have "foldl (\<lambda>g r. store j g r (w r)) (store j vals a (w a)) rs ! i = store j vals a (w a) ! i" .
    moreover have "store j vals a (w a) ! i
        = (case w a of None \<Rightarrow> vals ! i | Some v \<Rightarrow> putAt (vals ! i) j v)"
      using Cons.prems True by (intro store_same) (auto simp: inGrid_def)
    ultimately show ?thesis using True by simp
  next
    case False
    with Cons.prems have in_rs: "r \<in> set rs" and ne: "rowNumber a \<noteq> rowNumber r" by auto
    have d: "distinct (map rowNumber rs)" using Cons.prems by simp
    have "store j vals a (w a) ! i = vals ! i"
      using Cons.prems ne by (intro store_other) (auto simp: inGrid_def)
    with Cons.IH[OF g d in_rs Cons.prems(4)] show ?thesis by (simp split: option.splits)
  qed
qed

lemma blankRow_cong: "vals' ! i = vals ! i \<Longrightarrow> blankRow h ci vals' i = blankRow h ci vals i"
  by (simp add: blankRow_def)

lemma blankRow_putAt:
  "ci EmailSent = Some j \<Longrightarrow> vals' ! i = putAt (vals ! i) j v \<Longrightarrow>
     blankRow h ci vals' i = isBlank h v"
  by (simp add: blankRow_def lookupCell_def)

section \<open>One run\<close>

lemma processSheet_Some: "\<exists>sheet' calls. processSheet h e sp (Some sheet) = (Some sheet', calls)"
  by (auto split: option.splits prod.splits)

lemma processSheet_eq:
  assumes "readColumnData sheet = Some cd" and "columnIndices cd EmailSent = Some j"
  shows "processSheet h e sp (Some sheet) =
           (Some (sheet\<lparr>getValues := gridAfter h e sp cd j\<rparr>), logOf h e sp cd j)"
proof -
  have p: "\<forall>r\<in>set (findUnprocessed h (columnIndices cd) (gridValues cd) (Suc 0) []).
             Suc 0 \<le> rowNumber r"
    by (rule sel_positive)
  have g: "gridValues cd = getValues sheet"
    by (rule readColumnData_Some(1)[OF assms(1)])
  have "forEachRow h e sp (columnIndices cd) (nameValidation cd)
          (findUnprocessed h (columnIndices cd) (gridValues cd) (Suc 0) []) (getValues sheet, [])
        = (gridAfter h e sp cd j, logOf h e sp cd j)"
    using assms(2) p by (simp add: forEachRow_eq gridAfter_def logOf_def g)
  then show ?thesis using assms(1) by simp
qed

lemma gridAfter_length: "length (gridAfter h e sp cd j) = length (gridValues cd)"
  unfolding gridAfter_def by (rule stores_length) (rule sel_inGrid)

lemma gridAfter_unselected:
  "\<not> (Suc 0 \<le> i \<and> i < length (gridValues cd) \<and> blankRow h (columnIndices cd) (gridValues cd) i) \<Longrightarrow>
     gridAfter h e sp cd j ! i = gridValues cd ! i"
  unfolding gridAfter_def
  by (rule stores_other) (simp_all add: sel_inGrid sel_rows)

lemma gridAfter_selected:
  assumes "Suc 0 \<le> i" "i < length (gridValues cd)" "blankRow h (columnIndices cd) (gridValues cd) i"
  shows "gridAfter h e sp cd j ! i =
           (case rowValue h e sp (nameValidation cd) (mkRow (columnIndices cd) (gridValues cd) i) of
              None \<Rightarrow> gridValues cd ! i
            | Some v \<Rightarrow> putAt (gridValues cd ! i) j v)"
  unfolding gridAfter_def
proof (rule stores_same)
  show "inGrid (gridValues cd) (findUnprocessed h (columnIndices cd) (gridValues cd) (Suc 0) [])"
    by (rule sel_inGrid)
  show "distinct (map rowNumber (findUnprocessed h (columnIndices cd) (gridValues cd) (Suc 0) []))"
    by (rule sel_distinct)
  show "mkRow (columnIndices cd) (gridValues cd) i
          \<in> set (findUnprocessed h (columnIndices cd) (gridValues cd) (Suc 0) [])"
    using assms by (auto simp: sel_mem)
  show "Suc i = rowNumber (mkRow (columnIndices cd) (gridValues cd) i)" by simp
qed

lemma logOf_unselected:
  "\<not> (Suc 0 \<le> i \<and> i < length (gridValues cd) \<and> blankRow h (columnIndices cd) (gridValues cd) i) \<Longrightarrow>
     filter (\<lambda>ev. eventRow ev = Suc i) (logOf h e sp cd j) = []"
  unfolding logOf_def by (rule filter_log_absent) (simp add: sel_rows)

lemma logOf_zero: "filter (\<lambda>ev. eventRow ev = 0) (logOf h e sp cd j) = []"
proof -
  have "0 \<notin> rowNumber ` set (findUnprocessed h (columnIndices cd) (gridValues cd) (Suc 0) [])"
    using sel_rows_bounds[of 0 h "columnIndices cd" "gridValues cd"] by auto
  then show ?thesis unfolding logOf_def by (rule filter_log_absent)
qed

lemma logOf_selected:
  assumes "Suc 0 \<le> i" "i < length (gridValues cd)" "blankRow h (columnIndices cd) (gridValues cd) i"
  shows "filter (\<lambda>ev. eventRow ev = Suc i) (logOf h e sp cd j) =
           rowLog h e sp j (nameValidation cd) (mkRow (columnIndices cd) (gridValues cd) i)"
proof -
  have m: "mkRow (columnIndices cd) (gridValues cd) i
          \<in> set (findUnprocessed h (columnIndices cd) (gridValues cd) (Suc 0) [])"
    using assms by (auto simp: sel_mem)
  from filter_log_present[OF sel_distinct m, of h e sp j "nameValidation cd"]
  show ?thesis by (simp add: logOf_def)
qed

text \<open>
  One run on a sheet whose header resolves.
\<close>

lemma run_resolved:
  assumes rd: "readColumnData sheet = Some cd"
  obtains j where "columnIndices cd EmailSent = Some j"
    and "processSheet h e sp (Some sheet) =
           (Some (sheet\<lparr>getValues := gridAfter h e sp cd j\<rparr>), logOf h e sp cd j)"
    and "readColumnData (sheet\<lparr>getValues := gridAfter h e sp cd j\<rparr>)
           = Some (cd\<lparr>gridValues := gridAfter h e sp cd j\<rparr>)"
proof -
  from readColumnData_Some(4)[OF rd] obtain j where j: "columnIndices cd EmailSent = Some j" ..
  have g: "gridValues cd = getValues sheet" by (rule readColumnData_Some(1)[OF rd])
  have l: "length (gridAfter h e sp cd j) = length (getValues sheet)"
    by (simp add: gridAfter_length g)
  have z: "gridAfter h e sp cd j ! 0 = getValues sheet ! 0"
    using gridAfter_unselected[of 0 cd h e sp j] by (simp add: g)
  show ?thesis
    using that[OF j processSheet_eq[OF rd j] readColumnData_frame[OF rd l z]] .
qed

text \<open>
  The calls of one run for one row: none, or the calls of that row's callback.
\<close>

lemma run_row_log:
  assumes "processSheet h e sp so = (so', calls)"
  shows "filter (\<lambda>ev. eventRow ev = n) calls = []
         \<or> (\<exists>j nv r. rowNumber r = n \<and> filter (\<lambda>ev. eventRow ev = n) calls = rowLog h e sp j nv r)"
proof (cases so)
  case None
  with assms show ?thesis by simp
next
  case (Some sheet)
  show ?thesis
  proof (cases "readColumnData sheet")
    case None
    with Some assms show ?thesis by simp
  next
    case (Some cd)
    from run_resolved[OF Some, of h e sp] obtain j where
      j: "columnIndices cd EmailSent = Some j" and
      p: "processSheet h e sp (Some sheet) =
           (Some (sheet\<lparr>getValues := gridAfter h e sp cd j\<rparr>), logOf h e sp cd j)"
      by blast
    from p assms \<open>so = Some sheet\<close> have calls: "calls = logOf h e sp cd j" by simp
    show ?thesis
    proof (cases n)
      case 0
      then show ?thesis by (simp add: calls logOf_zero)
    next
      case (Suc i)
      show ?thesis
      proof (cases "Suc 0 \<le> i \<and> i < length (gridValues cd)
                      \<and> blankRow h (columnIndices cd) (gridValues cd) i")
        case True
        then have "filter (\<lambda>ev. eventRow ev = Suc i) (logOf h e sp cd j) =
           rowLog h e sp j (nameValidation cd) (mkRow (columnIndices cd) (gridValues cd) i)"
          by (intro logOf_selected) simp_all
        then show ?thesis using Suc calls
          by (intro disjI2 exI[of _ j] exI[of _ "nameValidation cd"]
              exI[of _ "mkRow (columnIndices cd) (gridValues cd) i"]) simp
      next
        case False
        then show ?thesis using Suc calls by (simp add: logOf_unselected)
      qed
    qed
  qed
qed

lemma run_counts:
  "sendCalls n (snd (processSheet h e sp so)) \<le> 1
   \<and> writeCalls n (snd (processSheet h e sp so)) \<le> 1
   \<and> notifications n (snd (processSheet h e sp so)) \<le> 1"
proof -
  obtain so' calls where p: "processSheet h e sp so = (so', calls)" by (cases "processSheet h e sp so")
  from run_row_log[OF p, of n] show ?thesis
    by (auto simp del: filter_filter simp: p sendCalls_def writeCalls_def notifications_def
        rowLog_sendCalls rowLog_writeCalls rowLog_notifications)
qed

lemma not_pending_run:
  assumes np: "\<not> pending h so n" and p: "processSheet h e sp so = (so', calls)"
  shows "filter (\<lambda>ev. eventRow ev = n) calls = [] \<and> \<not> pending h so' n"
proof (cases so)
  case None
  with p show ?thesis by (auto simp: pending_def)
next
  case (Some sheet)
  show ?thesis
  proof (cases "readColumnData sheet")
    case None
    with Some p np show ?thesis by auto
  next
    case (Some cd)
    from run_resolved[OF Some, of h e sp] obtain j where
      j: "columnIndices cd EmailSent = Some j" and
      ps: "processSheet h e sp (Some sheet) =
           (Some (sheet\<lparr>getValues := gridAfter h e sp cd j\<rparr>), logOf h e sp cd j)" and
      rd': "readColumnData (sheet\<lparr>getValues := gridAfter h e sp cd j\<rparr>)
           = Some (cd\<lparr>gridValues := gridAfter h e sp cd j\<rparr>)"
      by blast
    from ps p \<open>so = Some sheet\<close> have calls: "calls = logOf h e sp cd j"
      and so': "so' = Some (sheet\<lparr>getValues := gridAfter h e sp cd j\<rparr>)" by simp_all
    show ?thesis
    proof (cases n)
      case 0
      then show ?thesis by (simp add: calls logOf_zero so' pending_def rd')
    next
      case (Suc i)
      from np Suc Some \<open>so = Some sheet\<close>
      have un: "\<not> (Suc 0 \<le> i \<and> i < length (gridValues cd)
                  \<and> blankRow h (columnIndices cd) (gridValues cd) i)"
        by (auto simp: pending_def)
      have same: "gridAfter h e sp cd j ! i = gridValues cd ! i"
        by (rule gridAfter_unselected[OF un])
      have "\<not> pending h so' (Suc i)"
        using un blankRow_cong[OF same, of h "columnIndices cd"]
        by (auto simp: so' pending_def rd' gridAfter_length)
      then show ?thesis using Suc calls un by (simp add: logOf_unselected)
    qed
  qed
qed

lemma pending_run:
  assumes pe: "pending h so n" and p: "processSheet h e sp so = (so', calls)"
  shows "\<exists>j nv r. rowNumber r = n
           \<and> filter (\<lambda>ev. eventRow ev = n) calls = rowLog h e sp j nv r
           \<and> (pending h so' n \<longleftrightarrow>
                (case rowValue h e sp nv r of None \<Rightarrow> True | Some v \<Rightarrow> isBlank h v))"
proof -
  from pe obtain sheet cd where so: "so = Some sheet" and rd: "readColumnData sheet = Some cd"
    and n: "2 \<le> n" "n \<le> length (gridValues cd)"
      "blankRow h (columnIndices cd) (gridValues cd) (n - 1)"
    by (auto simp: pending_def split: option.splits)
  obtain i where i: "n = Suc i" using n(1) by (cases n) auto
  from run_resolved[OF rd, of h e sp] obtain j where
      j: "columnIndices cd EmailSent = Some j" and
      ps: "processSheet h e sp (Some sheet) =
           (Some (sheet\<lparr>getValues := gridAfter h e sp cd j\<rparr>), logOf h e sp cd j)" and
      rd': "readColumnData (sheet\<lparr>getValues := gridAfter h e sp cd j\<rparr>)
           = Some (cd\<lparr>gridValues := gridAfter h e sp cd j\<rparr>)"
      by blast
  from ps p so have calls: "calls = logOf h e sp cd j"
      and so': "so' = Some (sheet\<lparr>getValues := gridAfter h e sp cd j\<rparr>)" by simp_all
  have sel: "Suc 0 \<le> i" "i < length (gridValues cd)"
    "blankRow h (columnIndices cd) (gridValues cd) i"
    using n i by simp_all
  let ?r = "mkRow (columnIndices cd) (gridValues cd) i"
  have l: "filter (\<lambda>ev. eventRow ev = n) calls = rowLog h e sp j (nameValidation cd) ?r"
    using logOf_selected[OF sel, of e sp j] by (simp add: calls i)
  have pa: "pending h so' n \<longleftrightarrow> blankRow h (columnIndices cd) (gridAfter h e sp cd j) i"
    using sel by (simp add: so' pending_def rd' i gridAfter_length)
  have "blankRow h (columnIndices cd) (gridAfter h e sp cd j) i \<longleftrightarrow>
          (case rowValue h e sp (nameValidation cd) ?r of None \<Rightarrow> True | Some v \<Rightarrow> isBlank h v)"
  proof (cases "rowValue h e sp (nameValidation cd) ?r")
    case None
    then have "gridAfter h e sp cd j ! i = gridValues cd ! i"
      using gridAfter_selected[OF sel, of e sp j] by simp
    from blankRow_cong[OF this, of h "columnIndices cd"] sel(3) None show ?thesis by simp
  next
    case (Some v)
    then have ga: "gridAfter h e sp cd j ! i = putAt (gridValues cd ! i) j v"
      using gridAfter_selected[OF sel, of e sp j] by simp
    have "blankRow h (columnIndices cd) (gridAfter h e sp cd j) i = isBlank h v"
      using j ga by (rule blankRow_putAt)
    with Some show ?thesis by simp
  qed
  with pa l show ?thesis
    by (intro exI[of _ j] exI[of _ "nameValidation cd"] exI[of _ ?r]) (simp add: i)
qed

lemma delivered_run:
  assumes d: "datesRender h"
    and p: "processSheet h e sp so = (so', calls)"
    and c: "notifications n calls \<noteq> 0"
    and w: "\<forall>ev\<in>set calls. \<not> stampFailed n ev"
  shows "\<not> pending h so' n"
proof (cases "pending h so n")
  case False
  from not_pending_run[OF False p] show ?thesis by simp
next
  case True
  from pending_run[OF True p] obtain j nv r where
    rn: "rowNumber r = n" and
    l: "filter (\<lambda>x. eventRow x = n) calls = rowLog h e sp j nv r" and
    pa: "pending h so' n \<longleftrightarrow>
           (case rowValue h e sp nv r of None \<Rightarrow> True | Some v \<Rightarrow> isBlank h v)"
    by blast
  have "set (rowLog h e sp j nv r) \<subseteq> set calls" using l[symmetric] by auto
  with w rn have s: "\<forall>ev\<in>set (rowLog h e sp j nv r). \<not> stampFailed (rowNumber r) ev"
    by blast
  from c l have "filter (\<lambda>ev. isSendEmail ev \<and> returned ev) (rowLog h e sp j nv r) \<noteq> []"
    by (simp add: notifications_def)
  from rowLog_stamped[OF this s]
  have v: "rowValue h e sp nv r = Some (DateTime (timestamp e (rowNumber r)))" .
  from rowValue_not_blank[OF d v] pa v show ?thesis by simp
qed

lemma written_run:
  assumes d: "datesRender h" and p: "processSheet h e sp so = (so', calls)"
    and ev: "ev \<in> set calls" "\<not> isSendEmail ev" "returned ev"
  shows "\<not> pending h so' (eventRow ev)"
proof (cases "pending h so (eventRow ev)")
  case False
  from not_pending_run[OF False p] show ?thesis by simp
next
  case True
  from pending_run[OF True p] obtain j nv r where
    l: "filter (\<lambda>x. eventRow x = eventRow ev) calls = rowLog h e sp j nv r" and
    pa: "pending h so' (eventRow ev) \<longleftrightarrow>
           (case rowValue h e sp nv r of None \<Rightarrow> True | Some v \<Rightarrow> isBlank h v)"
    by blast
  from ev(1) have "ev \<in> set (filter (\<lambda>x. eventRow x = eventRow ev) calls)" by simp
  with l have "ev \<in> set (rowLog h e sp j nv r)" by simp
  from rowLog_written[OF this ev(2,3)] obtain v where v: "rowValue h e sp nv r = Some v" by auto
  from rowValue_not_blank[OF d v] pa v show ?thesis by simp
qed

lemma no_failure_run:
  assumes d: "datesRender h" and p: "processSheet h e sp so = (so', calls)"
    and ok: "\<forall>ev\<in>set calls. returned ev"
  shows "\<not> pending h so' n"
proof (cases "pending h so n")
  case False
  from not_pending_run[OF False p] show ?thesis by simp
next
  case True
  from pending_run[OF True p] obtain j nv r where
    l: "filter (\<lambda>x. eventRow x = n) calls = rowLog h e sp j nv r" and
    pa: "pending h so' n \<longleftrightarrow>
           (case rowValue h e sp nv r of None \<Rightarrow> True | Some v \<Rightarrow> isBlank h v)"
    by blast
  have "set (rowLog h e sp j nv r) \<subseteq> set calls" using l[symmetric] by auto
  with ok have "\<forall>ev\<in>set (rowLog h e sp j nv r). returned ev" by blast
  from rowLog_all_returned[OF this] obtain v where v: "rowValue h e sp nv r = Some v" by auto
  from rowValue_not_blank[OF d v] pa v show ?thesis by simp
qed

lemma settled_run:
  assumes "\<forall>n. \<not> pending h so n"
  shows "processSheet h e sp so = (so, [])"
proof (cases so)
  case None
  then show ?thesis by simp
next
  case (Some sheet)
  show ?thesis
  proof (cases "readColumnData sheet")
    case None
    with Some show ?thesis by simp
  next
    case rd: (Some cd)
    have g: "gridValues cd = getValues sheet" by (rule readColumnData_Some(1)[OF rd])
    have "\<not> (Suc 0 \<le> i \<and> i < length (gridValues cd)
              \<and> blankRow h (columnIndices cd) (gridValues cd) i)" for i
      using assms[rule_format, of "Suc i"] Some rd by (auto simp: pending_def)
    then have "filter (blankRow h (columnIndices cd) (gridValues cd)) [Suc 0..<length (gridValues cd)] = []"
      by (auto simp: filter_empty_conv)
    then have "findUnprocessed h (columnIndices cd) (gridValues cd) (Suc 0) [] = []"
      by (simp add: sel_eq)
    with Some rd show ?thesis by (simp add: g)
  qed
qed

section \<open>Several runs\<close>

lemma notifications_append:
  "notifications n (xs @ ys) = notifications n xs + notifications n ys"
  by (simp add: notifications_def)

lemma runs_bound:
  assumes d: "datesRender h"
  shows "\<forall>ev\<in>set (snd (runs h es so)). \<not> stampFailed n ev \<Longrightarrow>
         notifications n (snd (runs h es so)) \<le> (if pending h so n then 1 else 0)"
proof (induction es arbitrary: so)
  case Nil
  show ?case by (simp add: notifications_def)
next
  case (Cons a es)
  obtain e sp where a: "a = (e, sp)" by (cases a)
  obtain so' calls where p: "processSheet h e sp so = (so', calls)"
    by (cases "processSheet h e sp so")
  obtain so'' calls' where r: "runs h es so' = (so'', calls')" by (cases "runs h es so'")
  have whole: "snd (runs h (a # es) so) = calls @ calls'" by (simp add: a p r)
  from Cons.prems whole have w: "\<forall>ev\<in>set calls. \<not> stampFailed n ev"
    and rest: "\<forall>ev\<in>set (snd (runs h es so')). \<not> stampFailed n ev"
    by (simp_all add: r)
  have ih: "notifications n calls' \<le> (if pending h so' n then 1 else 0)"
    using Cons.IH[OF rest] r by simp
  have one: "notifications n calls \<le> 1"
    using run_counts[of n h e sp so] p by simp
  have total: "notifications n (snd (runs h (a # es) so)) = notifications n calls + notifications n calls'"
    by (simp add: whole notifications_append)
  show ?case
  proof (cases "pending h so n")
    case False
    from not_pending_run[OF False p] have "notifications n calls = 0" "\<not> pending h so' n"
      by (simp_all add: notifications_def)
    with ih total False show ?thesis by simp
  next
    case True
    show ?thesis
    proof (cases "notifications n calls = 0")
      case True
      with ih total \<open>pending h so n\<close> show ?thesis by (simp split: if_splits)
    next
      case False
      from delivered_run[OF d p False w] ih have "notifications n calls' = 0" by simp
      with one total \<open>pending h so n\<close> show ?thesis by simp
    qed
  qed
qed

section \<open>The claims\<close>

subsection \<open>C1: at most one notification per row\<close>

text \<open>
  \<^bold>\<open>C1\<close>, amended. In one run at most one call of \<^verbatim>\<open>sendEmail\<close> and at most one call
  of \<^verbatim>\<open>setValue\<close> are made for a row. Over any sequence of runs with no edit in between
  at most one notification is delivered for a row, provided that no write of a time
  stamp into that row's emailSent cell throws (and that dates never render blank).
  Calls of \<^verbatim>\<open>sendEmail\<close> that throw and writes of the sentinel that throw do not break
  the bound.
\<close>

theorem at_most_once:
  "sendCalls n (snd (processSheet h e sp sheet)) \<le> 1
   \<and> writeCalls n (snd (processSheet h e sp sheet)) \<le> 1
   \<and> (datesRender h \<and> (\<forall>ev\<in>set (snd (runs h es sheet)). \<not> stampFailed n ev)
        \<longrightarrow> notifications n (snd (runs h es sheet)) \<le> 1)"
proof -
  have "datesRender h \<and> (\<forall>ev\<in>set (snd (runs h es sheet)). \<not> stampFailed n ev)
        \<longrightarrow> notifications n (snd (runs h es sheet)) \<le> 1"
  proof
    assume a: "datesRender h \<and> (\<forall>ev\<in>set (snd (runs h es sheet)). \<not> stampFailed n ev)"
    then have "notifications n (snd (runs h es sheet)) \<le> (if pending h sheet n then 1 else 0)"
      by (intro runs_bound) simp_all
    then show "notifications n (snd (runs h es sheet)) \<le> 1" by (simp split: if_splits)
  qed
  with run_counts[of n h e sp sheet] show ?thesis by simp
qed

theorem at_most_once_witness:
  "datesRender host0
   \<and> \<not> list_ex (stampFailed 2)
         (snd (runs host0 [(envSendFails, book), (env0, book), (env0, book)] (Some oneRow)))
   \<and> map summary
        (snd (runs host0 [(envSendFails, book), (env0, book), (env0, book)] (Some oneRow)))
       = [(2, True, False), (2, True, True), (2, False, True)]
   \<and> notifications 2
        (snd (runs host0 [(envSendFails, book), (env0, book), (env0, book)] (Some oneRow))) \<le> 1
   \<and> \<not> list_ex (stampFailed 2)
         (snd (runs host0 [(envWriteFails, book), (env0, book)] (Some namelessRow)))
   \<and> map summary (snd (runs host0 [(envWriteFails, book), (env0, book)] (Some namelessRow)))
       = [(2, False, False), (2, False, True)]
   \<and> notifications 2
        (snd (runs host0 [(envWriteFails, book), (env0, book)] (Some namelessRow))) \<le> 1"
proof -
  let ?a = "snd (runs host0 [(envSendFails, book), (env0, book), (env0, book)] (Some oneRow))"
  let ?b = "snd (runs host0 [(envWriteFails, book), (env0, book)] (Some namelessRow))"
  have fa: "\<not> list_ex (stampFailed 2) ?a" by code_simp
  have fb: "\<not> list_ex (stampFailed 2) ?b" by code_simp
  have sa: "map summary ?a = [(2, True, False), (2, True, True), (2, False, True)]"
    by code_simp
  have sb: "map summary ?b = [(2, False, False), (2, False, True)]"
    by code_simp
  from fa have wa: "\<forall>ev\<in>set ?a. \<not> stampFailed 2 ev" unfolding list_ex_iff by blast
  from fb have wb: "\<forall>ev\<in>set ?b. \<not> stampFailed 2 ev" unfolding list_ex_iff by blast
  have na: "notifications 2 ?a \<le> 1"
    using at_most_once [of 2 host0 env0 book "Some oneRow"
        "[(envSendFails, book), (env0, book), (env0, book)]"] datesRender_host0 wa
    by blast
  have nb: "notifications 2 ?b \<le> 1"
    using at_most_once [of 2 host0 env0 book "Some namelessRow"
        "[(envWriteFails, book), (env0, book)]"] datesRender_host0 wb
    by blast
  from datesRender_host0 fa sa na fb sb nb show ?thesis by (intro conjI)
qed

text \<open>
  Without the proviso the bound fails: in the first of two runs the mail of row 2 goes
  out and the write of the time stamp throws; the second run delivers a second
  notification for the row.
\<close>

theorem at_most_once_counterexample:
  "map summary (snd (runs host0 [(envWriteFails, book), (env0, book)] (Some oneRow)))
     = [(2, True, True), (2, False, False), (2, True, True), (2, False, True)]
   \<and> notifications 2 (snd (runs host0 [(envWriteFails, book), (env0, book)] (Some oneRow))) = 2"
  by code_simp

subsection \<open>C2: a second run\<close>

text \<open>
  \<^bold>\<open>C2\<close>, amended. Two runs in succession with no edit in between: if every call of
  the first run returned, the second run makes no call and leaves the sheet as it is;
  and in any case a row whose emailSent cell the first run wrote, with the time stamp
  or with the sentinel, has no call in the second run. Dates never render blank.
\<close>

theorem idempotent:
  assumes d: "datesRender h"
    and run1: "processSheet h e1 sp1 (Some sheet) = (sheet1, log1)"
    and run2: "processSheet h e2 sp2 sheet1 = (sheet2, log2)"
  shows "((\<forall>ev\<in>set log1. returned ev) \<longrightarrow> log2 = [] \<and> sheet2 = sheet1)
         \<and> (\<forall>ev\<in>set log1. \<not> isSendEmail ev \<and> returned ev
               \<longrightarrow> eventRow ev \<notin> eventRow ` set log2)"
proof (intro conjI impI ballI)
  assume ok: "\<forall>ev\<in>set log1. returned ev"
  have "\<forall>n. \<not> pending h sheet1 n"
    using no_failure_run[OF d run1 ok] by simp
  from settled_run[OF this, of e2 sp2] run2 show "log2 = []" and "sheet2 = sheet1" by simp_all
next
  fix ev assume ev: "ev \<in> set log1" "\<not> isSendEmail ev \<and> returned ev"
  then have "\<not> pending h sheet1 (eventRow ev)"
    using written_run[OF d run1] by blast
  from not_pending_run[OF this run2]
  have "filter (\<lambda>x. eventRow x = eventRow ev) log2 = []" by simp
  then show "eventRow ev \<notin> eventRow ` set log2"
    by (auto simp: filter_empty_conv)
qed

theorem idempotent_witness:
  "datesRender host0
   \<and> list_all returned (snd (processSheet host0 env0 book (Some twoRows)))
   \<and> map summary (snd (processSheet host0 env0 book (Some twoRows)))
       = [(2, True, True), (2, False, True), (3, True, True), (3, False, True)]
   \<and> snd (processSheet host0 env0 book (fst (processSheet host0 env0 book (Some twoRows)))) = []"
proof -
  have s: "map summary (snd (processSheet host0 env0 book (Some twoRows)))
       = [(2, True, True), (2, False, True), (3, True, True), (3, False, True)]"
    by code_simp
  have la: "list_all returned (snd (processSheet host0 env0 book (Some twoRows)))"
    by code_simp
  then have ok: "\<forall>ev\<in>set (snd (processSheet host0 env0 book (Some twoRows))). returned ev"
    by (simp add: list_all_iff del: processSheet.simps)
  have r1: "processSheet host0 env0 book (Some twoRows)
      = (fst (processSheet host0 env0 book (Some twoRows)),
         snd (processSheet host0 env0 book (Some twoRows)))" by simp
  have r2: "processSheet host0 env0 book (fst (processSheet host0 env0 book (Some twoRows)))
      = (fst (processSheet host0 env0 book (fst (processSheet host0 env0 book (Some twoRows)))),
         snd (processSheet host0 env0 book (fst (processSheet host0 env0 book (Some twoRows)))))"
    by simp
  from idempotent [OF datesRender_host0 r1 r2] ok
  have "snd (processSheet host0 env0 book (fst (processSheet host0 env0 book (Some twoRows)))) = []"
    by blast
  with datesRender_host0 la s show ?thesis by (intro conjI)
qed

text \<open>
  When the mail of a row throws in the first run, the second run notifies that row.
\<close>

theorem idempotent_counterexample:
  "notifications 2
     (snd (processSheet host0 env0 book
             (fst (processSheet host0 envSendFails book (Some oneRow))))) = 1"
  by code_simp

subsection \<open>C3: the transition of a selected row\<close>

text \<open>
  \<^bold>\<open>C3\<close>, amended. For every selected row: if the validator rejects the name, no mail
  is sent and exactly one call is made, an attempt to write the text
  \<^verbatim>\<open>invalid name\<close> into the row's emailSent cell; otherwise exactly one call of
  \<^verbatim>\<open>sendEmail\<close> is attempted and, only if it returned, one write of the time stamp into
  the cell is attempted after it. A write that returns leaves its value in the cell;
  when the dispatch or the write throws, the cell is left as it was. The last component
  of a call tells whether it returned.
\<close>

theorem row_transition:
  assumes rd: "readColumnData sheet = Some cd"
    and sel: "r \<in> set (findUnprocessed h (columnIndices cd) (gridValues cd) 1 [])"
  shows "\<exists>sheet' calls j.
           processSheet h e sp (Some sheet) = (Some sheet', calls)
           \<and> columnIndices cd EmailSent = Some j
           \<and> (if \<not> isValidName h (nameValidation cd) (data r Name) (getRangeValues sp)
              then filter (\<lambda>ev. eventRow ev = rowNumber r) calls =
                     [SetValue (rowNumber r) (j + 1) (Text ''invalid name'')
                        (\<not> setValueThrows e (rowNumber r))]
                   \<and> cellAt (getValues sheet' ! (rowNumber r - 1)) j =
                       (if setValueThrows e (rowNumber r)
                        then cellAt (getValues sheet ! (rowNumber r - 1)) j
                        else Text ''invalid name'')
              else if sendEmailThrows e (rowNumber r)
              then filter (\<lambda>ev. eventRow ev = rowNumber r) calls =
                     [SendEmail (rowNumber r) (sendLateSheetEmail h (data r)) False]
                   \<and> cellAt (getValues sheet' ! (rowNumber r - 1)) j =
                       cellAt (getValues sheet ! (rowNumber r - 1)) j
              else filter (\<lambda>ev. eventRow ev = rowNumber r) calls =
                     [SendEmail (rowNumber r) (sendLateSheetEmail h (data r)) True,
                      SetValue (rowNumber r) (j + 1) (DateTime (timestamp e (rowNumber r)))
                        (\<not> setValueThrows e (rowNumber r))]
                   \<and> cellAt (getValues sheet' ! (rowNumber r - 1)) j =
                       (if setValueThrows e (rowNumber r)
                        then cellAt (getValues sheet ! (rowNumber r - 1)) j
                        else DateTime (timestamp e (rowNumber r))))"
proof -
  from sel obtain i where i: "Suc 0 \<le> i" "i < length (gridValues cd)"
      "blankRow h (columnIndices cd) (gridValues cd) i"
    and r: "r = mkRow (columnIndices cd) (gridValues cd) i"
    by (auto simp: sel_mem)
  have gv: "gridValues cd = getValues sheet" by (rule readColumnData_Some(1)[OF rd])
  from run_resolved[OF rd, of h e sp] obtain j where
      j: "columnIndices cd EmailSent = Some j" and
      ps: "processSheet h e sp (Some sheet) =
           (Some (sheet\<lparr>getValues := gridAfter h e sp cd j\<rparr>), logOf h e sp cd j)"
      by blast
  have l: "filter (\<lambda>ev. eventRow ev = rowNumber r) (logOf h e sp cd j)
             = rowLog h e sp j (nameValidation cd) r"
    using logOf_selected[OF i, of e sp j] by (simp add: r)
  have g: "gridAfter h e sp cd j ! (rowNumber r - Suc 0) =
           (case rowValue h e sp (nameValidation cd) r of
              None \<Rightarrow> getValues sheet ! (rowNumber r - Suc 0)
            | Some v \<Rightarrow> putAt (getValues sheet ! (rowNumber r - Suc 0)) j v)"
    using gridAfter_selected[OF i, of e sp j] by (simp add: r gv split: option.splits)
  show ?thesis
    by (rule exI[of _ "sheet\<lparr>getValues := gridAfter h e sp cd j\<rparr>"],
        rule exI[of _ "logOf h e sp cd j"], rule exI[of _ j])
      (simp add: ps j l g rowLog_def rowValue_def del: processSheet.simps)
qed

theorem row_transition_witness:
  "readColumnData oneRow = Some (columnDataOf oneRow)
   \<and> mkRow (columnIndices (columnDataOf oneRow)) (gridValues (columnDataOf oneRow)) 1
        \<in> set (findUnprocessed host0 (columnIndices (columnDataOf oneRow)) (gridValues (columnDataOf oneRow)) 1 [])
   \<and> (\<exists>sheet' calls j.
         processSheet host0 env0 book (Some oneRow) = (Some sheet', calls)
         \<and> columnIndices (columnDataOf oneRow) EmailSent = Some j
         \<and> map summary (filter (\<lambda>ev. eventRow ev = 2) calls) = [(2, True, True), (2, False, True)]
         \<and> cellAt (getValues sheet' ! 1) j = DateTime 1000000)"
proof -
  note c5 = emailSent_header0
  have rd: "readColumnData oneRow = Some (columnDataOf oneRow)"
    unfolding oneRow_def by (rule readColumnData_sheetOf) simp
  have bl: "blankRow host0 (columnIndices (columnDataOf oneRow)) (gridValues (columnDataOf oneRow)) 1"
    by (simp add: blankRow_def columnDataOf_def oneRow_def sheetOf_def rowOf_def lookupCell_def c5
        cellAt_def isBlank_def)
  have sel: "mkRow (columnIndices (columnDataOf oneRow)) (gridValues (columnDataOf oneRow)) 1
        \<in> set (findUnprocessed host0 (columnIndices (columnDataOf oneRow)) (gridValues (columnDataOf oneRow)) 1 [])"
  proof -
    have l: "Suc 0 < length (gridValues (columnDataOf oneRow))"
      by (simp add: columnDataOf_def oneRow_def sheetOf_def)
    have "mkRow (columnIndices (columnDataOf oneRow)) (gridValues (columnDataOf oneRow)) (Suc 0)
        \<in> set (findUnprocessed host0 (columnIndices (columnDataOf oneRow)) (gridValues (columnDataOf oneRow)) (Suc 0) [])"
      unfolding sel_mem using bl l by (intro exI[of _ "Suc 0"]) simp
    then show ?thesis by simp
  qed
  have ok: "isValidName host0 (nameValidation (columnDataOf oneRow))
              (data (mkRow (columnIndices (columnDataOf oneRow)) (gridValues (columnDataOf oneRow)) 1) Name) (getRangeValues book)"
    by (simp add: isValidName_def columnDataOf_def mkRow_def oneRow_def sheetOf_def rowOf_def
        lookupCell_def header0_def keys_def cellAt_def trim_def isSpace_def)
  let ?r = "mkRow (columnIndices (columnDataOf oneRow)) (gridValues (columnDataOf oneRow)) 1"
  have env: "sendEmailThrows env0 (rowNumber ?r) = False"
    "setValueThrows env0 (rowNumber ?r) = False"
    by (simp_all add: env0_def never_def)
  have ok': "isValidName host0 (nameValidation (columnDataOf oneRow)) (data ?r Name) (getRangeValues book) = True"
    using ok by simp
  have "\<exists>sheet' calls j.
         processSheet host0 env0 book (Some oneRow) = (Some sheet', calls)
         \<and> columnIndices (columnDataOf oneRow) EmailSent = Some j
         \<and> filter (\<lambda>ev. eventRow ev = rowNumber ?r) calls =
               [SendEmail (rowNumber ?r) (sendLateSheetEmail host0 (data ?r)) True,
                SetValue (rowNumber ?r) (j + 1) (DateTime (timestamp env0 (rowNumber ?r))) True]
         \<and> cellAt (getValues sheet' ! (rowNumber ?r - 1)) j
               = DateTime (timestamp env0 (rowNumber ?r))"
    using row_transition [OF rd sel, of env0 book]
    by (simp only: ok' env simp_thms if_True if_False)
  then obtain sheet' calls j where
    p: "processSheet host0 env0 book (Some oneRow) = (Some sheet', calls)"
    and j: "columnIndices (columnDataOf oneRow) EmailSent = Some j"
    and f: "filter (\<lambda>ev. eventRow ev = rowNumber ?r) calls =
               [SendEmail (rowNumber ?r) (sendLateSheetEmail host0 (data ?r)) True,
                SetValue (rowNumber ?r) (j + 1) (DateTime (timestamp env0 (rowNumber ?r))) True]"
    and c: "cellAt (getValues sheet' ! (rowNumber ?r - 1)) j
               = DateTime (timestamp env0 (rowNumber ?r))"
    by blast
  have rn: "rowNumber ?r = 2" by simp
  have ts: "timestamp env0 2 = 1000000" by (simp add: env0_def clock0_def)
  from f have f': "map summary (filter (\<lambda>ev. eventRow ev = 2) calls)
                     = [(2, True, True), (2, False, True)]"
    unfolding rn by (simp add: summary_def)
  from c have c': "cellAt (getValues sheet' ! 1) j = DateTime 1000000"
    unfolding rn ts by simp
  have "\<exists>sheet' calls j.
         processSheet host0 env0 book (Some oneRow) = (Some sheet', calls)
         \<and> columnIndices (columnDataOf oneRow) EmailSent = Some j
         \<and> map summary (filter (\<lambda>ev. eventRow ev = 2) calls) = [(2, True, True), (2, False, True)]
         \<and> cellAt (getValues sheet' ! 1) j = DateTime 1000000"
    by (rule exI[of _ sheet'], rule exI[of _ calls], rule exI[of _ j]) (intro conjI p j f' c')
  then show ?thesis by (intro conjI rd sel)
qed

text \<open>
  The cell does not always receive the time stamp after a dispatch: the validator
  accepts the name of row 2, the mail goes out, the write throws and the cell stays
  empty.
\<close>

theorem row_transition_counterexample:
  "isValidName host0 None (Text ''alice'') (getRangeValues book)
   \<and> map summary (snd (processSheet host0 envWriteFails book (Some oneRow)))
       = [(2, True, True), (2, False, False)]
   \<and> cellAt (gridOf (fst (processSheet host0 envWriteFails book (Some oneRow))) ! 1) 5 = Text []"
  by code_simp

subsection \<open>C4: the identity validator and the reference policy\<close>

text \<open>
  \<^bold>\<open>C4\<close>, a defect of the script. On a list rule whose literal set is empty the
  reference policy admits every non-blank identity, and so does the comment of the
  script on that branch (\<^verbatim>\<open>If validation exists but no values, consider valid\<close>). The
  guard \<^verbatim>\<open>criteriaValues[0]\<close> is true of an empty array, so the validator searches the
  empty set for the identity and rejects it.
\<close>

theorem isValidName_empty_list:
  "emptyListRule (Some (listRule []))
   \<and> \<not> isValidName host0 (Some (listRule [])) (Text ''Alice'') noRange
   \<and> referencePolicy host0 (Some (listRule [])) ''Alice'' noRange"
  by (simp add: isValidName_def referencePolicy_def emptyListRule_def listRule_def ruleKind_def
      literalSet_def payload_def trim_def isSpace_def)

subsection \<open>C5: the selected rows\<close>

text \<open>
  \<^bold>\<open>C5\<close>, amended. The selection loop yields, in the order of the grid and without the
  header row, exactly the data rows whose emailSent cell is an empty or white-space
  string, the number 0 or the boolean \<^verbatim>\<open>false\<close>; a row whose emailSent cell holds a
  time stamp or the sentinel is not selected. Dates never render blank.
\<close>

theorem row_selector:
  assumes "datesRender h"
  shows "findUnprocessed h ci vals 1 [] =
           map (mkRow ci vals)
             (filter (\<lambda>i. unmarked (lookupCell ci (vals ! i) EmailSent)) [1..<length vals])
         \<and> (\<forall>i t. lookupCell ci (vals ! i) EmailSent = DateTime t
                  \<or> lookupCell ci (vals ! i) EmailSent = Text ''invalid name''
               \<longrightarrow> Suc i \<notin> rowNumber ` set (findUnprocessed h ci vals 1 []))"
proof -
  have eq: "findUnprocessed h ci vals 1 [] =
           map (mkRow ci vals)
             (filter (\<lambda>i. unmarked (lookupCell ci (vals ! i) EmailSent)) [1..<length vals])"
    using assms by (simp add: findUnprocessed_eq isBlank_unmarked)
  have s: "\<not> unmarked (Text ''invalid name'')"
    by (simp add: unmarked_def trim_def isSpace_def)
  have "\<forall>i t. lookupCell ci (vals ! i) EmailSent = DateTime t
                \<or> lookupCell ci (vals ! i) EmailSent = Text ''invalid name''
           \<longrightarrow> Suc i \<notin> rowNumber ` set (findUnprocessed h ci vals 1 [])"
    unfolding eq using s by (auto simp: mkRow_def unmarked_def)
  with eq show ?thesis by blast
qed

theorem row_selector_witness:
  "datesRender host0
   \<and> map rowNumber (findUnprocessed host0 (scanHeader header0 0 Map.empty) grid0 1 []) = [2, 4, 7]"
proof -
  have ci: "scanHeader header0 0 Map.empty EmailSent = Some 5"
    by (simp add: header0_def keys_def)
  have "map rowNumber (map (mkRow (scanHeader header0 0 Map.empty) grid0)
             (filter (\<lambda>i. unmarked (lookupCell (scanHeader header0 0 Map.empty) (grid0 ! i) EmailSent))
                [1..<length grid0])) = [2, 4, 7]"
    by (simp add: grid0_def upt_1_7 lookupCell_def ci cellAt_def rowOf_def unmarked_def mkRow_def
        trim_def isSpace_def)
  then show ?thesis
    using datesRender_host0 row_selector [OF datesRender_host0, of "scanHeader header0 0 Map.empty" grid0]
    by simp
qed

text \<open>
  A row whose emailSent cell holds the number 0 is selected, though the cell is neither
  empty nor white space.
\<close>

theorem row_selector_counterexample:
  "\<not> emptyOrWhitespace (Number 0)
   \<and> map rowNumber
         (findUnprocessed host0 (scanHeader header0 0 Map.empty)
            [header0, rowOf (Text ''alice'') (Number 0)] 1 []) = [2]"
proof -
  have ci: "scanHeader header0 0 Map.empty EmailSent = Some 5"
    by (simp add: header0_def keys_def)
  have u: "[1..<2] = [1::nat]" by (simp add: upt_rec)
  show ?thesis
    by (simp add: emptyOrWhitespace_def findUnprocessed_eq u lookupCell_def ci cellAt_def rowOf_def
        isBlank_def mkRow_def)
qed

subsection \<open>C6: resolving the columns\<close>

text \<open>
  \<^bold>\<open>C6\<close>. No column is reported missing if and only if every declared label occurs
  among the header cells as a string equal to it, and an index found for a key is the
  position of such a cell. \<^verbatim>\<open>readColumnData\<close> returns a result if and only if, besides,
  the grid has a data row. When a label is missing from the header row the run leaves
  the sheet as it is and makes no call, and so does \<^verbatim>\<open>processLateSheet\<close> on a
  spreadsheet whose sheet of the year is that sheet.
\<close>

theorem schema_resolution:
  "(missingColumns (scanHeader headerRow 0 Map.empty) = []
      \<longleftrightarrow> (\<forall>key. Text (columns key) \<in> set headerRow))
   \<and> (\<forall>key j. scanHeader headerRow 0 Map.empty key = Some j
         \<longrightarrow> j < length headerRow \<and> headerRow ! j = Text (columns key))
   \<and> (readColumnData sheet \<noteq> None \<longleftrightarrow>
         2 \<le> length (getValues sheet)
         \<and> (\<forall>key. Text (columns key) \<in> set (getValues sheet ! 0)))
   \<and> ((\<exists>key. Text (columns key) \<notin> set (getValues sheet ! 0))
         \<longrightarrow> processSheet h e sp (Some sheet) = (Some sheet, [])
             \<and> (getSheetByName sp (numberToString h (fullYear e)) = Some sheet
                  \<longrightarrow> processLateSheet h e sp = (sp, [])))"
proof (intro conjI allI impI)
  show "missingColumns (scanHeader headerRow 0 Map.empty) = []
      \<longleftrightarrow> (\<forall>key. Text (columns key) \<in> set headerRow)"
    by (simp add: missingColumns_Nil scanHeader_None)
next
  fix key j
  assume "scanHeader headerRow 0 Map.empty key = Some j"
  from scanHeader_Some[OF this] show "j < length headerRow" by simp
  from scanHeader_Some[OF \<open>scanHeader headerRow 0 Map.empty key = Some j\<close>]
  show "headerRow ! j = Text (columns key)" by simp
next
  show "readColumnData sheet \<noteq> None \<longleftrightarrow>
         2 \<le> length (getValues sheet)
         \<and> (\<forall>key. Text (columns key) \<in> set (getValues sheet ! 0))"
    by (rule readColumnData_resolves)
next
  assume "\<exists>key. Text (columns key) \<notin> set (getValues sheet ! 0)"
  then obtain key where "Text (columns key) \<notin> set (getValues sheet ! 0)" ..
  then have "readColumnData sheet = None" by (rule readColumnData_missing)
  then show p: "processSheet h e sp (Some sheet) = (Some sheet, [])" by simp
  assume "getSheetByName sp (numberToString h (fullYear e)) = Some sheet"
  then show "processLateSheet h e sp = (sp, [])"
    using p by (simp add: processLateSheet_def Let_def fun_upd_idem del: processSheet.simps)
qed

theorem schema_resolution_witness:
  "(\<exists>key. Text (columns key) \<notin> set (getValues noNotes ! 0))
   \<and> missingColumns (scanHeader (getValues noNotes ! 0) 0 Map.empty) \<noteq> []
   \<and> readColumnData noNotes = None
   \<and> processSheet host0 env0 book (Some noNotes) = (Some noNotes, [])
   \<and> getSheetByName bookWithoutNotes (numberToString host0 (fullYear env0)) = Some noNotes
   \<and> processLateSheet host0 env0 bookWithoutNotes = (bookWithoutNotes, [])
   \<and> scanHeader header0 0 Map.empty EmailSent = Some 5
   \<and> header0 ! 5 = Text (columns EmailSent)"
proof -
  have m: "Text (columns Notes) \<notin> set (getValues noNotes ! 0)"
    by (simp add: noNotes_def)
  then have ex: "\<exists>key. Text (columns key) \<notin> set (getValues noNotes ! 0)" ..
  have s: "scanHeader header0 0 Map.empty EmailSent = Some 5"
    by (simp add: header0_def keys_def)
  have g: "getSheetByName bookWithoutNotes (numberToString host0 (fullYear env0)) = Some noNotes"
    by (simp add: bookWithoutNotes_def)
  note a = schema_resolution [of "getValues noNotes ! 0" noNotes host0 env0 book]
  note b = schema_resolution [of header0 noNotes host0 env0 bookWithoutNotes]
  from a ex have 1: "missingColumns (scanHeader (getValues noNotes ! 0) 0 Map.empty) \<noteq> []"
    by blast
  from a ex have 2: "readColumnData noNotes = None" by blast
  from a ex have 3: "processSheet host0 env0 book (Some noNotes) = (Some noNotes, [])" by blast
  from b ex g have 4: "processLateSheet host0 env0 bookWithoutNotes = (bookWithoutNotes, [])"
    by blast
  from b s have 5: "header0 ! 5 = Text (columns EmailSent)" by blast
  from ex 1 2 3 g 4 s 5 show ?thesis by (intro conjI)
qed

subsection \<open>C7: one failing row does not stop the others\<close>

text \<open>
  \<^bold>\<open>C7\<close>, amended. A run always returns. A dispatch or a write that throws leaves the
  row of the call as it was. For every selected row the calls of the run for that row
  are those of processing the row on its own, and a selected row whose calls all
  returned holds the time stamp, or the sentinel if its name was rejected, in its
  emailSent cell after the run. A second run of the same sheet, in an environment that
  differs from the first only at row \<open>n\<close>, makes the same calls for the other rows and
  leaves the same contents in them. A failure inside the validator is not among the
  failures that leave a row as it was: the validator recovers from it and admits every
  identity that is not blank.
\<close>

theorem row_isolation:
  assumes run: "processSheet h e sp (Some sheet) = (Some sheet', calls)"
    and run': "processSheet h e' sp (Some sheet) = (Some sheet'', calls')"
    and ag: "agreeExcept n e e'"
  shows "(\<forall>ev\<in>set calls. \<not> returned ev \<longrightarrow>
            getValues sheet' ! (eventRow ev - 1) = getValues sheet ! (eventRow ev - 1))
         \<and> filter (\<lambda>ev. eventRow ev \<noteq> n) calls' = filter (\<lambda>ev. eventRow ev \<noteq> n) calls
         \<and> (\<forall>i. Suc i \<noteq> n \<longrightarrow> getValues sheet'' ! i = getValues sheet' ! i)
         \<and> (\<forall>cd. readColumnData sheet = Some cd \<longrightarrow>
               (\<forall>r\<in>set (findUnprocessed h (columnIndices cd) (gridValues cd) 1 []).
                  filter (\<lambda>ev. eventRow ev = rowNumber r) calls
                    = snd (processRow h e sp (columnIndices cd) (nameValidation cd) r ([], []))))
         \<and> (\<forall>cd. readColumnData sheet = Some cd \<longrightarrow>
               (\<forall>r\<in>set (findUnprocessed h (columnIndices cd) (gridValues cd) 1 []).
                  (\<forall>ev\<in>set calls. eventRow ev = rowNumber r \<longrightarrow> returned ev) \<longrightarrow>
                  (\<exists>j. columnIndices cd EmailSent = Some j
                     \<and> cellAt (getValues sheet' ! (rowNumber r - 1)) j =
                         (if isValidName h (nameValidation cd) (data r Name) (getRangeValues sp)
                          then DateTime (timestamp e (rowNumber r))
                          else Text ''invalid name''))))
         \<and> (\<forall>v x. validationThrows v (getRangeValues sp) \<longrightarrow>
               isValidName h (Some v) x (getRangeValues sp) = (\<not> isBlank h x))"
proof (cases "readColumnData sheet")
  case None
  with run run' show ?thesis by (auto simp: isValidName_throws)
next
  case rd: (Some cd)
  from ag have agree: "\<forall>m. m \<noteq> n \<longrightarrow> sendEmailThrows e' m = sendEmailThrows e m
             \<and> setValueThrows e' m = setValueThrows e m \<and> timestamp e' m = timestamp e m"
    by (simp add: agreeExcept_def)
  have gv: "gridValues cd = getValues sheet" by (rule readColumnData_Some(1)[OF rd])
  from run_resolved[OF rd, of h e sp] obtain j where
      j: "columnIndices cd EmailSent = Some j" and
      ps: "processSheet h e sp (Some sheet) =
           (Some (sheet\<lparr>getValues := gridAfter h e sp cd j\<rparr>), logOf h e sp cd j)"
      by blast
  from processSheet_eq[OF rd j, of h e' sp] run'
  have s'': "sheet'' = sheet\<lparr>getValues := gridAfter h e' sp cd j\<rparr>"
    and l'': "calls' = logOf h e' sp cd j" by simp_all
  from ps run have s': "sheet' = sheet\<lparr>getValues := gridAfter h e sp cd j\<rparr>"
    and l': "calls = logOf h e sp cd j" by simp_all
  let ?ci = "columnIndices cd" and ?vals = "gridValues cd" and ?nv = "nameValidation cd"
  have part1: "\<forall>ev\<in>set calls. \<not> returned ev \<longrightarrow>
            getValues sheet' ! (eventRow ev - 1) = getValues sheet ! (eventRow ev - 1)"
  proof (intro ballI impI)
    fix ev assume ev: "ev \<in> set calls" "\<not> returned ev"
    then obtain r where r: "r \<in> set (findUnprocessed h ?ci ?vals (Suc 0) [])"
      and evr: "ev \<in> set (rowLog h e sp j ?nv r)"
      by (auto simp: l' logOf_def)
    from r obtain i where i: "Suc 0 \<le> i" "i < length ?vals" "blankRow h ?ci ?vals i"
      and ri: "r = mkRow ?ci ?vals i"
      by (auto simp: sel_mem)
    have n: "eventRow ev = Suc i" using eventRow_rowLog[OF evr] ri by simp
    have "rowValue h e sp ?nv r = None" by (rule rowLog_failed[OF evr ev(2)])
    then have "gridAfter h e sp cd j ! i = ?vals ! i"
      using gridAfter_selected[OF i, of e sp j] ri by simp
    then show "getValues sheet' ! (eventRow ev - 1) = getValues sheet ! (eventRow ev - 1)"
      by (simp add: s' n gv)
  qed
  have part2: "filter (\<lambda>ev. eventRow ev \<noteq> n) calls' = filter (\<lambda>ev. eventRow ev \<noteq> n) calls"
    unfolding l' l'' logOf_def by (rule logs_agree[OF agree])
  have part3: "\<forall>i. Suc i \<noteq> n \<longrightarrow> getValues sheet'' ! i = getValues sheet' ! i"
  proof (intro allI impI)
    fix i assume ne: "Suc i \<noteq> n"
    show "getValues sheet'' ! i = getValues sheet' ! i"
    proof (cases "Suc 0 \<le> i \<and> i < length ?vals \<and> blankRow h ?ci ?vals i")
      case False
      then show ?thesis by (simp add: s' s'' gridAfter_unselected)
    next
      case True
      then have i: "Suc 0 \<le> i" "i < length ?vals" "blankRow h ?ci ?vals i" by simp_all
      have "rowValue h e' sp ?nv (mkRow ?ci ?vals i) = rowValue h e sp ?nv (mkRow ?ci ?vals i)"
        using agree ne by (intro rowLog_agree) simp_all
      then show ?thesis
        using gridAfter_selected[OF i, of e sp j] gridAfter_selected[OF i, of e' sp j]
        by (simp add: s' s'')
    qed
  qed
  have part4: "\<forall>r\<in>set (findUnprocessed h ?ci ?vals 1 []).
                  filter (\<lambda>ev. eventRow ev = rowNumber r) calls
                    = snd (processRow h e sp ?ci ?nv r ([], []))"
  proof
    fix r assume "r \<in> set (findUnprocessed h ?ci ?vals 1 [])"
    then obtain i where i: "Suc 0 \<le> i" "i < length ?vals" "blankRow h ?ci ?vals i"
      and ri: "r = mkRow ?ci ?vals i"
      by (auto simp: sel_mem)
    have "snd (processRow h e sp ?ci ?nv r ([], [])) = rowLog h e sp j ?nv r"
      using j by (simp add: processRow_eq ri)
    then show "filter (\<lambda>ev. eventRow ev = rowNumber r) calls
                    = snd (processRow h e sp ?ci ?nv r ([], []))"
      using logOf_selected[OF i, of e sp j] by (simp add: l' ri)
  qed
  have part5: "\<forall>r\<in>set (findUnprocessed h ?ci ?vals 1 []).
                  (\<forall>ev\<in>set calls. eventRow ev = rowNumber r \<longrightarrow> returned ev) \<longrightarrow>
                  (\<exists>j. ?ci EmailSent = Some j
                     \<and> cellAt (getValues sheet' ! (rowNumber r - 1)) j =
                         (if isValidName h ?nv (data r Name) (getRangeValues sp)
                          then DateTime (timestamp e (rowNumber r))
                          else Text ''invalid name''))"
  proof (intro ballI impI)
    fix r assume "r \<in> set (findUnprocessed h ?ci ?vals 1 [])"
      and ok: "\<forall>ev\<in>set calls. eventRow ev = rowNumber r \<longrightarrow> returned ev"
    then obtain i where i: "Suc 0 \<le> i" "i < length ?vals" "blankRow h ?ci ?vals i"
      and ri: "r = mkRow ?ci ?vals i"
      by (auto simp: sel_mem)
    have l: "filter (\<lambda>ev. eventRow ev = rowNumber r) calls = rowLog h e sp j ?nv r"
      using logOf_selected[OF i, of e sp j] by (simp add: l' ri)
    have "set (rowLog h e sp j ?nv r) \<subseteq> {ev \<in> set calls. eventRow ev = rowNumber r}"
      using l[symmetric] by auto
    with ok have "\<forall>ev\<in>set (rowLog h e sp j ?nv r). returned ev" by blast
    from rowLog_resolved[OF this]
    have v: "rowValue h e sp ?nv r =
       Some (if isValidName h ?nv (data r Name) (getRangeValues sp)
             then DateTime (timestamp e (rowNumber r)) else Text ''invalid name'')" .
    have "gridAfter h e sp cd j ! i =
            putAt (?vals ! i) j
              (if isValidName h ?nv (data r Name) (getRangeValues sp)
               then DateTime (timestamp e (rowNumber r)) else Text ''invalid name'')"
      using gridAfter_selected[OF i, of e sp j] v by (simp add: ri)
    then have "cellAt (getValues sheet' ! (rowNumber r - 1)) j =
                 (if isValidName h ?nv (data r Name) (getRangeValues sp)
                  then DateTime (timestamp e (rowNumber r)) else Text ''invalid name'')"
      by (simp add: s' ri)
    with j show "\<exists>j. ?ci EmailSent = Some j
                     \<and> cellAt (getValues sheet' ! (rowNumber r - 1)) j =
                         (if isValidName h ?nv (data r Name) (getRangeValues sp)
                          then DateTime (timestamp e (rowNumber r))
                          else Text ''invalid name'')"
      by blast
  qed
  have part6: "\<forall>v x. validationThrows v (getRangeValues sp) \<longrightarrow>
               isValidName h (Some v) x (getRangeValues sp) = (\<not> isBlank h x)"
    by (simp add: isValidName_throws)
  from part1 part2 part3 part4 part5 part6 rd show ?thesis by simp
qed

theorem row_isolation_witness:
  "agreeExcept 2 envRow2Fails env0
   \<and> map summary (snd (processSheet host0 envRow2Fails book (Some twoRows)))
       = [(2, True, False), (3, True, True), (3, False, True)]
   \<and> (\<exists>sheet'. fst (processSheet host0 envRow2Fails book (Some twoRows)) = Some sheet'
         \<and> getValues sheet' ! 1 = getValues twoRows ! 1)
   \<and> filter (\<lambda>ev. eventRow ev \<noteq> 2) (snd (processSheet host0 env0 book (Some twoRows)))
       = filter (\<lambda>ev. eventRow ev \<noteq> 2) (snd (processSheet host0 envRow2Fails book (Some twoRows)))
   \<and> readColumnData twoRows = Some (columnDataOf twoRows)
   \<and> mkRow (columnIndices (columnDataOf twoRows)) (gridValues (columnDataOf twoRows)) 2
        \<in> set (findUnprocessed host0 (columnIndices (columnDataOf twoRows))
                 (gridValues (columnDataOf twoRows)) 1 [])
   \<and> filter (\<lambda>ev. eventRow ev = 3) (snd (processSheet host0 envRow2Fails book (Some twoRows)))
       = snd (processRow host0 envRow2Fails book (columnIndices (columnDataOf twoRows))
                (nameValidation (columnDataOf twoRows))
                (mkRow (columnIndices (columnDataOf twoRows)) (gridValues (columnDataOf twoRows)) 2)
                ([], []))
   \<and> cellAt (gridOf (fst (processSheet host0 envRow2Fails book (Some twoRows))) ! 2) 5
       = DateTime 1000000
   \<and> validationThrows brokenRule (getRangeValues book)
   \<and> isValidName host0 (Some brokenRule) (Text ''alice'') (getRangeValues book)"
proof -
  let ?cd = "columnDataOf twoRows"
  let ?r = "mkRow (columnIndices ?cd) (gridValues ?cd) 2"
  have rd: "readColumnData twoRows = Some ?cd"
    unfolding twoRows_def by (rule readColumnData_sheetOf) simp
  have sel: "?r \<in> set (findUnprocessed host0 (columnIndices ?cd) (gridValues ?cd) 1 [])"
  proof -
    have l: "2 < length (gridValues ?cd)"
      by (simp add: columnDataOf_def twoRows_def sheetOf_def)
    have bl: "blankRow host0 (columnIndices ?cd) (gridValues ?cd) 2"
      by (simp add: blankRow_def columnDataOf_def twoRows_def sheetOf_def rowOf_def lookupCell_def
          emailSent_header0 cellAt_def isBlank_def)
    have "mkRow (columnIndices ?cd) (gridValues ?cd) 2
        \<in> set (findUnprocessed host0 (columnIndices ?cd) (gridValues ?cd) (Suc 0) [])"
      unfolding sel_mem using bl l by (intro exI[of _ 2]) simp
    then show ?thesis by simp
  qed
  have a: "agreeExcept 2 envRow2Fails env0"
    by (simp add: agreeExcept_def envRow2Fails_def env0_def never_def onlyRow2_def)
  have s: "map summary (snd (processSheet host0 envRow2Fails book (Some twoRows)))
       = [(2, True, False), (3, True, True), (3, False, True)]"
    by code_simp
  obtain sheet' calls where r: "processSheet host0 envRow2Fails book (Some twoRows) = (Some sheet', calls)"
    using processSheet_Some by blast
  obtain sheet'' calls' where r': "processSheet host0 env0 book (Some twoRows) = (Some sheet'', calls')"
    using processSheet_Some by blast
  have "list_ex (\<lambda>ev. \<not> returned ev \<and> eventRow ev = 2)
          (snd (processSheet host0 envRow2Fails book (Some twoRows)))"
    by code_simp
  then obtain ev where ev: "ev \<in> set calls" "\<not> returned ev" "eventRow ev = 2"
    by (auto simp: list_ex_iff r simp del: processSheet.simps)
  note iso = row_isolation [OF r r' a]
  from iso ev have "getValues sheet' ! (2 - 1) = getValues twoRows ! (2 - 1)" by metis
  then have u: "getValues sheet' ! 1 = getValues twoRows ! 1" by simp
  from iso have f: "filter (\<lambda>ev. eventRow ev \<noteq> 2) calls' = filter (\<lambda>ev. eventRow ev \<noteq> 2) calls"
    by blast
  from iso rd have "\<forall>r\<in>set (findUnprocessed host0 (columnIndices ?cd) (gridValues ?cd) 1 []).
      filter (\<lambda>ev. eventRow ev = rowNumber r) calls
        = snd (processRow host0 envRow2Fails book (columnIndices ?cd) (nameValidation ?cd) r ([], []))"
    by blast
  with sel have "filter (\<lambda>ev. eventRow ev = rowNumber ?r) calls
        = snd (processRow host0 envRow2Fails book (columnIndices ?cd) (nameValidation ?cd) ?r ([], []))"
    by blast
  then have p: "filter (\<lambda>ev. eventRow ev = 3) calls
        = snd (processRow host0 envRow2Fails book (columnIndices ?cd) (nameValidation ?cd) ?r ([], []))"
    by simp
  have "\<exists>sheet'. fst (processSheet host0 envRow2Fails book (Some twoRows)) = Some sheet'
         \<and> getValues sheet' ! 1 = getValues twoRows ! 1"
    using u by (simp add: r del: processSheet.simps)
  moreover have "filter (\<lambda>ev. eventRow ev \<noteq> 2) (snd (processSheet host0 env0 book (Some twoRows)))
       = filter (\<lambda>ev. eventRow ev \<noteq> 2) (snd (processSheet host0 envRow2Fails book (Some twoRows)))"
    using f by (simp add: r r' del: processSheet.simps)
  moreover have "filter (\<lambda>ev. eventRow ev = 3) (snd (processSheet host0 envRow2Fails book (Some twoRows)))
       = snd (processRow host0 envRow2Fails book (columnIndices ?cd) (nameValidation ?cd) ?r ([], []))"
    using p by (simp add: r del: processSheet.simps)
  moreover have "cellAt (gridOf (fst (processSheet host0 envRow2Fails book (Some twoRows))) ! 2) 5
       = DateTime 1000000"
  proof -
    have "list_all (\<lambda>ev. eventRow ev = 3 \<longrightarrow> returned ev)
            (snd (processSheet host0 envRow2Fails book (Some twoRows)))"
      by code_simp
    then have al: "\<forall>ev\<in>set calls. eventRow ev = rowNumber ?r \<longrightarrow> returned ev"
      by (simp add: list_all_iff r del: processSheet.simps)
    from iso rd have "\<forall>r\<in>set (findUnprocessed host0 (columnIndices ?cd) (gridValues ?cd) 1 []).
        (\<forall>ev\<in>set calls. eventRow ev = rowNumber r \<longrightarrow> returned ev) \<longrightarrow>
        (\<exists>j. columnIndices ?cd EmailSent = Some j
           \<and> cellAt (getValues sheet' ! (rowNumber r - 1)) j =
               (if isValidName host0 (nameValidation ?cd) (data r Name) (getRangeValues book)
                then DateTime (timestamp envRow2Fails (rowNumber r))
                else Text ''invalid name''))"
      by blast
    with sel al obtain j where j: "columnIndices ?cd EmailSent = Some j"
      and c: "cellAt (getValues sheet' ! (rowNumber ?r - 1)) j =
               (if isValidName host0 (nameValidation ?cd) (data ?r Name) (getRangeValues book)
                then DateTime (timestamp envRow2Fails (rowNumber ?r))
                else Text ''invalid name'')"
      by blast
    have j5: "j = 5" using j by (simp add: columnDataOf_def twoRows_def sheetOf_def emailSent_header0)
    have ok: "isValidName host0 (nameValidation ?cd) (data ?r Name) (getRangeValues book)"
      by (simp add: isValidName_def columnDataOf_def mkRow_def twoRows_def sheetOf_def rowOf_def
          lookupCell_def header0_def keys_def cellAt_def trim_def isSpace_def)
    have ts: "timestamp envRow2Fails 3 = 1000000" by (simp add: envRow2Fails_def env0_def clock0_def)
    from c ok have "cellAt (getValues sheet' ! 2) 5 = DateTime 1000000"
      unfolding j5 by (simp add: ts)
    then show ?thesis by (simp add: r gridOf_def del: processSheet.simps)
  qed
  moreover have vt: "validationThrows brokenRule (getRangeValues book)"
    by (simp add: validationThrows_def brokenRule_def)
  moreover have "isValidName host0 (Some brokenRule) (Text ''alice'') (getRangeValues book)"
  proof -
    have nb: "\<not> isBlank host0 (Text ''alice'')" by (simp add: isBlank_def trim_def isSpace_def)
    from iso vt nb show ?thesis by blast
  qed
  ultimately show ?thesis using a s rd sel by (intro conjI)
qed

text \<open>
  The kind of the validation rule cannot be read, so that validating the name of row 2
  fails; the row is mailed and its emailSent cell receives the time stamp.
\<close>

theorem row_isolation_counterexample:
  "getDataValidation brokenSheet 2 1 = Returns (Some brokenRule)
   \<and> getCriteriaType brokenRule = Throws
   \<and> map summary (snd (processSheet host0 env0 book (Some brokenSheet)))
       = [(2, True, True), (2, False, True)]
   \<and> cellAt (gridOf (fst (processSheet host0 env0 book (Some brokenSheet))) ! 1) 5
       = DateTime 1000000"
  by code_simp

subsection \<open>C8: the recency guard\<close>

text \<open>
  \<^bold>\<open>C8\<close>, amended. The guard reports a recent change if and only if the last update can
  be read and is later than ten minutes before the current time, that is, within the
  window of the last ten minutes or later than the current time. When the guard reports
  a recent change the guarded entry point makes no call and leaves the spreadsheet as it
  is. When the time of the last update cannot be read the guard reports no change.
  Whenever the guard reports no change the guarded entry point does what the
  unconditional one does; outside the year 2025 and with the sheet of the year present,
  its calls are those of \<^verbatim>\<open>processSheet\<close> on that sheet.
\<close>

theorem recency_guard:
  "(wasSheetModifiedRecently e sp \<longleftrightarrow>
      (\<exists>t. getLastUpdated sp = Returns t
         \<and> (t \<in> {nowMs e - 10 * 60 * 1000 <.. nowMs e} \<or> nowMs e < t)))
   \<and> (getSpreadsheetForThisYear openByUrl = Some sp \<and> wasSheetModifiedRecently e sp \<longrightarrow>
         processLateSheetIfNotModifiedRecently h e openByUrl = (Some sp, []))
   \<and> (getLastUpdated sp = Throws \<longrightarrow> \<not> wasSheetModifiedRecently e sp)
   \<and> (getSpreadsheetForThisYear openByUrl = Some sp \<and> \<not> wasSheetModifiedRecently e sp \<longrightarrow>
         processLateSheetIfNotModifiedRecently h e openByUrl = processLateSheetNow h e openByUrl
         \<and> (\<forall>sheet. numberToString h (fullYear e) \<noteq> ''2025''
                  \<and> getSheetByName sp (numberToString h (fullYear e)) = Some sheet \<longrightarrow>
               snd (processLateSheetIfNotModifiedRecently h e openByUrl)
                 = snd (processSheet h e sp (Some sheet))))"
proof (intro conjI impI allI)
  show "wasSheetModifiedRecently e sp \<longleftrightarrow>
      (\<exists>t. getLastUpdated sp = Returns t
         \<and> (t \<in> {nowMs e - 10 * 60 * 1000 <.. nowMs e} \<or> nowMs e < t))"
    by (auto simp: wasSheetModifiedRecently_def split: call.splits)
next
  assume "getSpreadsheetForThisYear openByUrl = Some sp \<and> wasSheetModifiedRecently e sp"
  then show "processLateSheetIfNotModifiedRecently h e openByUrl = (Some sp, [])"
    by (simp add: processLateSheetIfNotModifiedRecently_def)
next
  assume "getLastUpdated sp = Throws"
  then show "\<not> wasSheetModifiedRecently e sp"
    by (simp add: wasSheetModifiedRecently_def)
next
  assume a: "getSpreadsheetForThisYear openByUrl = Some sp \<and> \<not> wasSheetModifiedRecently e sp"
  then show "processLateSheetIfNotModifiedRecently h e openByUrl = processLateSheetNow h e openByUrl"
    by (simp add: processLateSheetIfNotModifiedRecently_def processLateSheetNow_def)
  fix sheet
  assume "numberToString h (fullYear e) \<noteq> ''2025''
                  \<and> getSheetByName sp (numberToString h (fullYear e)) = Some sheet"
  with a show "snd (processLateSheetIfNotModifiedRecently h e openByUrl)
                 = snd (processSheet h e sp (Some sheet))"
    by (simp add: processLateSheetIfNotModifiedRecently_def processLateSheet_def Let_def
        split: prod.splits del: processSheet.simps)
qed

theorem recency_guard_witness:
  "getSpreadsheetForThisYear (opens (modifiedAt 820000)) = Some (modifiedAt 820000)
   \<and> wasSheetModifiedRecently env0 (modifiedAt 820000)
   \<and> processLateSheetIfNotModifiedRecently host0 env0 (opens (modifiedAt 820000))
        = (Some (modifiedAt 820000), [])
   \<and> getSpreadsheetForThisYear (opens (modifiedAt 100000)) = Some (modifiedAt 100000)
   \<and> \<not> wasSheetModifiedRecently env0 (modifiedAt 100000)
   \<and> map summary (snd (processLateSheetIfNotModifiedRecently host0 env0 (opens (modifiedAt 100000))))
        = [(2, True, True), (2, False, True)]
   \<and> getSpreadsheetForThisYear (opens unknownModification) = Some unknownModification
   \<and> getLastUpdated unknownModification = Throws
   \<and> \<not> wasSheetModifiedRecently env0 unknownModification
   \<and> processLateSheetIfNotModifiedRecently host0 env0 (opens unknownModification)
        = processLateSheetNow host0 env0 (opens unknownModification)
   \<and> map summary (snd (processLateSheetIfNotModifiedRecently host0 env0 (opens unknownModification)))
        = [(2, True, True), (2, False, True)]"
proof -
  have o: "getSpreadsheetForThisYear (opens (modifiedAt 820000)) = Some (modifiedAt 820000)"
    "getSpreadsheetForThisYear (opens (modifiedAt 100000)) = Some (modifiedAt 100000)"
    "getSpreadsheetForThisYear (opens unknownModification) = Some unknownModification"
    by (simp_all add: getSpreadsheetForThisYear_def opens_def)
  have c: "getLastUpdated unknownModification = Throws"
    by (simp add: unknownModification_def)
  have y: "numberToString host0 (fullYear env0) \<noteq> ''2025''" by code_simp
  have sh: "getSheetByName (modifiedAt 100000) (numberToString host0 (fullYear env0)) = Some oneRow"
    "getSheetByName unknownModification (numberToString host0 (fullYear env0)) = Some oneRow"
    by (simp_all add: modifiedAt_def unknownModification_def bookWithSheet_def everySheet_def)
  have recent: "\<exists>t. getLastUpdated (modifiedAt 820000) = Returns t
         \<and> (t \<in> {nowMs env0 - 10 * 60 * 1000 <.. nowMs env0} \<or> nowMs env0 < t)"
    by (rule exI[of _ 820000]) (simp add: modifiedAt_def env0_def)
  have old: "\<not> (\<exists>t. getLastUpdated (modifiedAt 100000) = Returns t
         \<and> (t \<in> {nowMs env0 - 10 * 60 * 1000 <.. nowMs env0} \<or> nowMs env0 < t))"
    by (simp add: modifiedAt_def env0_def)
  note g1 = recency_guard [of env0 "modifiedAt 820000" "opens (modifiedAt 820000)" host0]
  note g2 = recency_guard [of env0 "modifiedAt 100000" "opens (modifiedAt 100000)" host0]
  note g3 = recency_guard [of env0 unknownModification "opens unknownModification" host0]
  from g1 recent have r: "wasSheetModifiedRecently env0 (modifiedAt 820000)" by blast
  from g1 r o(1)
  have skip: "processLateSheetIfNotModifiedRecently host0 env0 (opens (modifiedAt 820000))
        = (Some (modifiedAt 820000), [])" by blast
  from g2 old have n: "\<not> wasSheetModifiedRecently env0 (modifiedAt 100000)" by blast
  from g2 n o(2) y sh(1)
  have "snd (processLateSheetIfNotModifiedRecently host0 env0 (opens (modifiedAt 100000)))
          = snd (processSheet host0 env0 (modifiedAt 100000) (Some oneRow))" by blast
  moreover have "map summary (snd (processSheet host0 env0 (modifiedAt 100000) (Some oneRow)))
          = [(2, True, True), (2, False, True)]" by code_simp
  ultimately have c2: "map summary
      (snd (processLateSheetIfNotModifiedRecently host0 env0 (opens (modifiedAt 100000))))
        = [(2, True, True), (2, False, True)]" by simp
  from g3 c have u: "\<not> wasSheetModifiedRecently env0 unknownModification" by blast
  from g3 u o(3)
  have same: "processLateSheetIfNotModifiedRecently host0 env0 (opens unknownModification)
        = processLateSheetNow host0 env0 (opens unknownModification)" by blast
  from g3 u o(3) y sh(2)
  have "snd (processLateSheetIfNotModifiedRecently host0 env0 (opens unknownModification))
          = snd (processSheet host0 env0 unknownModification (Some oneRow))" by blast
  moreover have "map summary (snd (processSheet host0 env0 unknownModification (Some oneRow)))
          = [(2, True, True), (2, False, True)]" by code_simp
  ultimately have c3: "map summary
      (snd (processLateSheetIfNotModifiedRecently host0 env0 (opens unknownModification)))
        = [(2, True, True), (2, False, True)]" by simp
  from o(1) r skip o(2) n c2 o(3) c u same c3 show ?thesis by (intro conjI)
qed

text \<open>
  A last update later than the current time is outside the window that ends at the
  current time, and the guard reports a recent change.
\<close>

theorem recency_guard_counterexample:
  "getLastUpdated (modifiedAt 2000000) = Returns 2000000
   \<and> wasSheetModifiedRecently env0 (modifiedAt 2000000)
   \<and> (2000000 :: int) \<notin> {nowMs env0 - 10 * 60 * 1000 <.. nowMs env0}"
  by (simp add: wasSheetModifiedRecently_def modifiedAt_def env0_def)

subsection \<open>C9: the fields of the notification\<close>

text \<open>
  \<^bold>\<open>C9\<close>, amended. The line of a detail column (date, violation, lateness, notes) is
  part of the body if and only if the value of the column is truthy: a string that is
  not empty (white space included), a number other than 0, \<^verbatim>\<open>true\<close>, or a date. The
  greeting with the recipient's name is always part of the body, and for a row that the
  validator accepts the recipient's name is the identity.
\<close>

theorem email_fields:
  "(\<forall>key\<in>set detailKeys. fieldLine h d key \<in> set (bodyParts h d) \<longleftrightarrow> \<not> falsy (d key))
   \<and> (\<forall>key\<in>set detailKeys. \<not> falsy (d key) \<longrightarrow>
         (\<exists>pre post. body (sendLateSheetEmail h d) = pre @ fieldLine h d key @ post))
   \<and> (''Hello '' @ recipientName h d @ '',\<newline>\<newline>'') \<in> set (bodyParts h d)
   \<and> (isValidName h nv (d Name) r \<longrightarrow> recipientName h d = toString h (d Name))
   \<and> body (sendLateSheetEmail h d) = concat (bodyParts h d)"
proof (intro conjI ballI impI)
  have parts: "fieldLine h d key \<in> set (bodyParts h d) \<longleftrightarrow> \<not> falsy (d key)"
    if "key \<in> set detailKeys" for key
  proof -
    from that consider "key = Date" | "key = Violation" | "key = HowLate" | "key = Notes"
      by (auto simp: detailKeys_def)
    then show ?thesis
    proof cases
      case 1 then show ?thesis by (simp add: fieldLine_def bodyParts_def)
    next
      case 2 then show ?thesis by (simp add: fieldLine_def bodyParts_def)
    next
      case 3 then show ?thesis by (simp add: fieldLine_def bodyParts_def)
    next
      case 4 then show ?thesis by (simp add: fieldLine_def bodyParts_def)
    qed
  qed
  fix key assume k: "key \<in> set detailKeys"
  show "fieldLine h d key \<in> set (bodyParts h d) \<longleftrightarrow> \<not> falsy (d key)"
    by (rule parts[OF k])
  assume "\<not> falsy (d key)"
  then have "fieldLine h d key \<in> set (bodyParts h d)" using parts[OF k] by simp
  from concat_part[OF this]
  show "\<exists>pre post. body (sendLateSheetEmail h d) = pre @ fieldLine h d key @ post"
    by (simp add: sendLateSheetEmail_def)
next
  show "(''Hello '' @ recipientName h d @ '',\<newline>\<newline>'') \<in> set (bodyParts h d)"
    by (simp add: bodyParts_def)
next
  assume "isValidName h nv (d Name) r"
  then show "recipientName h d = toString h (d Name)"
    by (simp add: recipientName_def isValidName_truthy)
next
  show "body (sendLateSheetEmail h d) = concat (bodyParts h d)"
    by (simp add: sendLateSheetEmail_def)
qed

theorem email_fields_witness:
  "Violation \<in> set detailKeys \<and> HowLate \<in> set detailKeys
   \<and> \<not> falsy (whitespaceNotes Violation) \<and> falsy (whitespaceNotes HowLate)
   \<and> fieldLine host0 whitespaceNotes Violation = ''Violation: late\<newline>''
   \<and> fieldLine host0 whitespaceNotes Violation \<in> set (bodyParts host0 whitespaceNotes)
   \<and> fieldLine host0 whitespaceNotes HowLate \<notin> set (bodyParts host0 whitespaceNotes)
   \<and> (\<exists>pre post. body (sendLateSheetEmail host0 whitespaceNotes)
                      = pre @ fieldLine host0 whitespaceNotes Violation @ post)
   \<and> isValidName host0 None (whitespaceNotes Name) noRange
   \<and> recipientName host0 whitespaceNotes = toString host0 (whitespaceNotes Name)"
proof -
  note e = email_fields [of host0 whitespaceNotes None noRange]
  have b: "\<forall>key\<in>set detailKeys.
       fieldLine host0 whitespaceNotes key \<in> set (bodyParts host0 whitespaceNotes)
         \<longleftrightarrow> \<not> falsy (whitespaceNotes key)"
    using e by blast
  have k: "Violation \<in> set detailKeys" "HowLate \<in> set detailKeys"
    by (simp_all add: detailKeys_def)
  have v: "fieldLine host0 whitespaceNotes Violation = ''Violation: late\<newline>''"
    by (simp add: fieldLine_def)
  have i: "isValidName host0 None (whitespaceNotes Name) noRange"
    by (simp add: isValidName_def trim_def isSpace_def)
  have n: "recipientName host0 whitespaceNotes = toString host0 (whitespaceNotes Name)"
    using e i by blast
  have "fieldLine host0 whitespaceNotes Violation \<in> set (bodyParts host0 whitespaceNotes)"
    using b k(1) by (simp del: set_simps)
  moreover have "fieldLine host0 whitespaceNotes HowLate \<notin> set (bodyParts host0 whitespaceNotes)"
    using b k(2) by (simp del: set_simps)
  moreover have "\<exists>pre post. body (sendLateSheetEmail host0 whitespaceNotes)
                      = pre @ fieldLine host0 whitespaceNotes Violation @ post"
  proof -
    have nf: "\<not> falsy (whitespaceNotes Violation)" by simp
    from e have "\<forall>key\<in>set detailKeys. \<not> falsy (whitespaceNotes key) \<longrightarrow>
         (\<exists>pre post. body (sendLateSheetEmail host0 whitespaceNotes)
                        = pre @ fieldLine host0 whitespaceNotes key @ post)"
      by blast
    with k(1) nf show ?thesis by blast
  qed
  ultimately show ?thesis using k v i n by simp
qed

text \<open>
  Notes that consist of white space only appear in the body.
\<close>

theorem email_fields_counterexample:
  "emptyOrWhitespace (whitespaceNotes Notes)
   \<and> fieldLine host0 whitespaceNotes Notes = ''Notes:   \<newline>''
   \<and> fieldLine host0 whitespaceNotes Notes \<in> set (bodyParts host0 whitespaceNotes)"
  by (simp add: emptyOrWhitespace_def trim_def isSpace_def fieldLine_def bodyParts_def)

subsection \<open>C10: the year 2025\<close>

text \<open>
  \<^bold>\<open>C10\<close>. When the current year is 2025, both entry points return the spreadsheet
  they were given and make no call, whatever the sheets hold.
\<close>

theorem year_2025_gate:
  "fullYear e = 2025 \<Longrightarrow>
     processLateSheetNow h e openByUrl = (getSpreadsheetForThisYear openByUrl, [])
     \<and> processLateSheetIfNotModifiedRecently h e openByUrl
           = (getSpreadsheetForThisYear openByUrl, [])"
  by (simp add: processLateSheetNow_def processLateSheetIfNotModifiedRecently_def
      processLateSheet_def numberToString_2025 split: option.splits)

theorem year_2025_gate_witness:
  "fullYear env2025 = 2025
   \<and> processLateSheetNow host0 env2025 (opens bookWithSheet) = (Some bookWithSheet, [])
   \<and> processLateSheetIfNotModifiedRecently host0 env2025 (opens bookWithSheet)
        = (Some bookWithSheet, [])
   \<and> map summary (snd (processLateSheetNow host0 env0 (opens bookWithSheet)))
        = [(2, True, True), (2, False, True)]"
proof -
  have y: "fullYear env2025 = 2025" by (simp add: env2025_def)
  have o: "getSpreadsheetForThisYear (opens bookWithSheet) = Some bookWithSheet"
    by (simp add: getSpreadsheetForThisYear_def opens_def)
  have s: "map summary (snd (processLateSheetNow host0 env0 (opens bookWithSheet)))
        = [(2, True, True), (2, False, True)]"
    by code_simp
  from year_2025_gate [OF y, of host0 "opens bookWithSheet"] y s o show ?thesis by simp
qed

end
